theory Spec2Isabelle
  imports Complex_Main
begin

section \<open>Errors, randomness and the world outside the engine\<close>

text \<open>
  Every exception of the Python program is a value. \<open>IndexError\<close> is what
  \<^verbatim>\<open>random.choice\<close> raises on an empty sequence, \<open>AssertionError\<close> a failing
  \<^verbatim>\<open>assert\<close>, \<open>ZeroDivisionError\<close> a division by zero, \<open>IllegalMove\<close> the board's
  refusal of a move, and \<open>PlayFailure\<close> any exception that escapes the
  play-to-completion collaborator.
\<close>

datatype error = IndexError | IllegalMove | AssertionError | ZeroDivisionError | PlayFailure string

text \<open>
  The mutable world the functions run in. The global generator of module \<^verbatim>\<open>random\<close>
  is an arbitrary stream of draws \<open>seed\<close> with the number \<open>draws\<close> of draws taken so
  far; \<open>hidden\<close> is whatever else the players may read and write while a game is
  played (search caches, clocks).
\<close>

record 'w world =
  seed :: "nat \<Rightarrow> nat"
  draws :: nat
  hidden :: 'w

text \<open>\<^verbatim>\<open>random.choice(xs)\<close>: raises on an empty sequence, else takes one draw.\<close>

definition random_choice :: "'w world \<Rightarrow> 'a list \<Rightarrow> error + ('a \<times> 'w world)" where
  "random_choice wd xs =
     (if xs = [] then Inl IndexError
      else Inr (xs ! (seed wd (draws wd) mod length xs), wd\<lparr>draws := Suc (draws wd)\<rparr>))"

section \<open>The board collaborator\<close>

type_synonym move = "int \<times> int"

text \<open>
  Modelled from the spec: class \<^verbatim>\<open>Board\<close> of module \<^verbatim>\<open>isolation\<close>, which is imported
  but is not among the source files. The specification asks of it a board state bound to
  two competitors, one first-to-move (active) and one inactive, legal-move enumeration,
  move application that toggles the turn, and the occupied-cell footprint.
\<close>

record 'p board =
  width :: int
  height :: int
  player_1 :: 'p
  player_2 :: 'p
  active_player :: 'p
  inactive_player :: 'p
  occupied :: "move set"

text \<open>
  Modelled from the spec: the constructor \<^verbatim>\<open>Board(player_1, player_2, width, height)\<close>,
  a fresh empty board on which the first registered player is to move.
\<close>

definition Board :: "'p \<Rightarrow> 'p \<Rightarrow> int \<Rightarrow> int \<Rightarrow> 'p board" where
  "Board p1 p2 w h =
     \<lparr>width = w, height = h, player_1 = p1, player_2 = p2,
      active_player = p1, inactive_player = p2, occupied = {}\<rparr>"

text \<open>
  Modelled from the spec: \<^verbatim>\<open>Board.get_blank_spaces\<close>, the cells \<open>(row, column)\<close> of the
  board that are not occupied, column by column.
\<close>

definition get_blank_spaces :: "'p board \<Rightarrow> move list" where
  "get_blank_spaces b =
     [(i, j). j \<leftarrow> [0..width b - 1], i \<leftarrow> [0..height b - 1], (i, j) \<notin> occupied b]"

text \<open>
  Modelled from the spec: \<^verbatim>\<open>Board.get_legal_moves\<close> while the pieces are being placed,
  where every blank cell is legal. The engine applies opening moves only; the movement
  rule of a piece that is already on the board is a game rule outside the specification.
\<close>

definition get_legal_moves :: "'p board \<Rightarrow> move list" where
  "get_legal_moves b = get_blank_spaces b"

text \<open>
  Modelled from the spec: \<^verbatim>\<open>Board.apply_move\<close>. An illegal move is a collaborator error;
  a legal one occupies its cell and hands the turn to the other player.
\<close>

definition apply_move :: "'p board \<Rightarrow> move \<Rightarrow> error + 'p board" where
  "apply_move b m =
     (if m \<in> set (get_legal_moves b)
      then Inr (b\<lparr>active_player := inactive_player b, inactive_player := active_player b,
                  occupied := insert m (occupied b)\<rparr>)
      else Inl IllegalMove)"

section \<open>tournament\_helpers: running the matches\<close>

text \<open>\<^verbatim>\<open>Agent = namedtuple("Agent", ["player", "name"])\<close>\<close>

record 'p agent =
  player :: 'p
  name :: string

definition Agent :: "'p \<Rightarrow> string \<Rightarrow> 'p agent" where
  "Agent p n = \<lparr>player = p, name = n\<rparr>"

text \<open>
  \<^verbatim>\<open>get_random_starting_positions(height, width)\<close>. The loop \<^verbatim>\<open>for _ in range(2)\<close> is
  \<open>sample_moves 2\<close>: choose a legal move at random, append it, apply it to the
  temporary board, whose two players are the empty string.
\<close>

fun sample_moves ::
  "nat \<Rightarrow> string board \<Rightarrow> 'w world \<Rightarrow> move list \<Rightarrow> error + (move list \<times> 'w world)" where
  "sample_moves 0 b wd moves = Inr (moves, wd)"
| "sample_moves (Suc n) b wd moves =
     (case random_choice wd (get_legal_moves b) of
        Inl e \<Rightarrow> Inl e
      | Inr (m, wd1) \<Rightarrow>
          (case apply_move b m of
             Inl e \<Rightarrow> Inl e
           | Inr b1 \<Rightarrow> sample_moves n b1 wd1 (moves @ [m])))"

definition get_random_starting_positions ::
  "'w world \<Rightarrow> int \<Rightarrow> int \<Rightarrow> error + (move list \<times> 'w world)" where
  "get_random_starting_positions wd h w = sample_moves 2 (Board [] [] w h) wd []"

text \<open>
  \<^verbatim>\<open>prepare_fair_match(player1, player2, opening_moves=None, width=7, height=7)\<close>.
  \<open>apply_to_boards\<close> is the inner loop \<^verbatim>\<open>for board in boards\<close>, \<open>apply_opening\<close> the
  outer loop \<^verbatim>\<open>for move in opening_moves\<close>. The test \<^verbatim>\<open>not opening_moves\<close> holds of
  \<^verbatim>\<open>None\<close> and of the empty list.
\<close>

fun apply_to_boards :: "'p board list \<Rightarrow> move \<Rightarrow> error + 'p board list" where
  "apply_to_boards [] m = Inr []"
| "apply_to_boards (b # bs) m =
     (case apply_move b m of
        Inl e \<Rightarrow> Inl e
      | Inr b1 \<Rightarrow>
          (case apply_to_boards bs m of
             Inl e \<Rightarrow> Inl e
           | Inr bs1 \<Rightarrow> Inr (b1 # bs1)))"

fun apply_opening :: "'p board list \<Rightarrow> move list \<Rightarrow> error + 'p board list" where
  "apply_opening boards [] = Inr boards"
| "apply_opening boards (m # ms) =
     (case apply_to_boards boards m of
        Inl e \<Rightarrow> Inl e
      | Inr boards1 \<Rightarrow> apply_opening boards1 ms)"

definition prepare_fair_match ::
  "'w world \<Rightarrow> 'p \<Rightarrow> 'p \<Rightarrow> move list option \<Rightarrow> int \<Rightarrow> int
     \<Rightarrow> error + (('p board list \<times> move list) \<times> 'w world)" where
  "prepare_fair_match wd player1 player2 opening_moves w h =
     (let boards = [Board player1 player2 w h, Board player2 player1 w h] in
      case (case opening_moves of
              None \<Rightarrow> get_random_starting_positions wd (height (boards ! 0)) (width (boards ! 0))
            | Some [] \<Rightarrow> get_random_starting_positions wd (height (boards ! 0)) (width (boards ! 0))
            | Some (m # ms) \<Rightarrow> Inr (m # ms, wd)) of
        Inl e \<Rightarrow> Inl e
      | Inr (moves, wd1) \<Rightarrow>
          (case apply_opening boards moves of
             Inl e \<Rightarrow> Inl e
           | Inr boards1 \<Rightarrow> Inr ((boards1, moves), wd1)))"

text \<open>
  \<^verbatim>\<open>prepare_same_fair_matches(agent, opponents, num_matches)\<close>, a generator.
  \<open>same_opening_moves\<close> is the list comprehension that runs once, before the first
  opponent; \<open>build_games\<close> is the loop over the shared openings for one opponent,
  \<open>games_for\<close> adds the assertion and is what one \<^verbatim>\<open>yield\<close> produces, and
  \<open>yield_all\<close> is the loop over the opponents. \<open>prepare_same_fair_matches\<close> is the
  generator run to its end, as \<^verbatim>\<open>test_prepare_same_fair_matches\<close> runs it. The number
  of matches is a count, hence a natural number.
\<close>

fun same_opening_moves :: "nat \<Rightarrow> 'w world \<Rightarrow> error + (move list list \<times> 'w world)" where
  "same_opening_moves 0 wd = Inr ([], wd)"
| "same_opening_moves (Suc n) wd =
     (case get_random_starting_positions wd 7 7 of
        Inl e \<Rightarrow> Inl e
      | Inr (moves, wd1) \<Rightarrow>
          (case same_opening_moves n wd1 of
             Inl e \<Rightarrow> Inl e
           | Inr (rest, wd2) \<Rightarrow> Inr (moves # rest, wd2)))"

fun build_games ::
  "'w world \<Rightarrow> 'p agent \<Rightarrow> 'p agent \<Rightarrow> move list list \<Rightarrow> 'p board list
     \<Rightarrow> error + ('p board list \<times> 'w world)" where
  "build_games wd agent opponent [] games = Inr (games, wd)"
| "build_games wd agent opponent (opening_moves # rest) games =
     (case prepare_fair_match wd (player agent) (player opponent) (Some opening_moves) 7 7 of
        Inl e \<Rightarrow> Inl e
      | Inr ((boards, _), wd1) \<Rightarrow> build_games wd1 agent opponent rest (games @ boards))"

definition games_for ::
  "'w world \<Rightarrow> 'p agent \<Rightarrow> 'p agent \<Rightarrow> move list list \<Rightarrow> nat
     \<Rightarrow> error + ('p board list \<times> 'w world)" where
  "games_for wd agent opponent openings num_matches =
     (case build_games wd agent opponent openings [] of
        Inl e \<Rightarrow> Inl e
      | Inr (games, wd1) \<Rightarrow>
          if length games = 2 * num_matches then Inr (games, wd1) else Inl AssertionError)"

fun yield_all ::
  "'w world \<Rightarrow> 'p agent \<Rightarrow> 'p agent list \<Rightarrow> move list list \<Rightarrow> nat
     \<Rightarrow> error + ('p board list list \<times> 'w world)" where
  "yield_all wd agent [] openings num_matches = Inr ([], wd)"
| "yield_all wd agent (opponent # opponents) openings num_matches =
     (case games_for wd agent opponent openings num_matches of
        Inl e \<Rightarrow> Inl e
      | Inr (games, wd1) \<Rightarrow>
          (case yield_all wd1 agent opponents openings num_matches of
             Inl e \<Rightarrow> Inl e
           | Inr (rest, wd2) \<Rightarrow> Inr (games # rest, wd2)))"

definition prepare_same_fair_matches ::
  "'w world \<Rightarrow> 'p agent \<Rightarrow> 'p agent list \<Rightarrow> nat
     \<Rightarrow> error + ('p board list list \<times> 'w world)" where
  "prepare_same_fair_matches wd agent opponents num_matches =
     (case same_opening_moves num_matches wd of
        Inl e \<Rightarrow> Inl e
      | Inr (openings, wd1) \<Rightarrow> yield_all wd1 agent opponents openings num_matches)"

section \<open>Counters\<close>

text \<open>
  \<^verbatim>\<open>collections.Counter\<close>: a dictionary from keys to counts, kept as an association
  list in insertion order with at most one entry for a key. Reading a missing key gives
  \<open>0\<close> and adds no entry; \<open>counter_incr\<close> is \<^verbatim>\<open>c[k] += 1\<close>, \<open>counter_del\<close> is
  \<^verbatim>\<open>del c[k]\<close> (which, on a Counter, does nothing for a missing key), \<open>counter_update\<close>
  is \<^verbatim>\<open>c.update(d)\<close> (counts add), \<open>counter_sum\<close> is \<^verbatim>\<open>sum(c.values())\<close>, and
  \<^verbatim>\<open>len(c)\<close> is \<open>length\<close>.
\<close>

type_synonym 'k counter = "('k \<times> nat) list"

fun counter_get :: "'k counter \<Rightarrow> 'k \<Rightarrow> nat" where
  "counter_get [] k = 0"
| "counter_get ((k', v) # c) k = (if k' = k then v else counter_get c k)"

fun counter_set :: "'k counter \<Rightarrow> 'k \<Rightarrow> nat \<Rightarrow> 'k counter" where
  "counter_set [] k v = [(k, v)]"
| "counter_set ((k', v') # c) k v =
     (if k' = k then (k', v) # c else (k', v') # counter_set c k v)"

definition counter_incr :: "'k counter \<Rightarrow> 'k \<Rightarrow> 'k counter" where
  "counter_incr c k = counter_set c k (counter_get c k + 1)"

definition counter_del :: "'k counter \<Rightarrow> 'k \<Rightarrow> 'k counter" where
  "counter_del c k = filter (\<lambda>kv. fst kv \<noteq> k) c"

definition counter_update :: "'k counter \<Rightarrow> 'k counter \<Rightarrow> 'k counter" where
  "counter_update c d = foldl (\<lambda>acc (k, v). counter_set acc k (v + counter_get acc k)) c d"

definition counter_sum :: "'k counter \<Rightarrow> nat" where
  "counter_sum c = sum_list (map snd c)"

definition counter_keys :: "'k counter \<Rightarrow> 'k set" where
  "counter_keys c = set (map fst c)"

section \<open>tournament\_fair: playing a round\<close>

text \<open>
  Modelled from the spec: the method \<^verbatim>\<open>Board.play\<close> of module \<^verbatim>\<open>isolation\<close>, the
  play-to-completion collaborator, is not among the source files. It is the parameter
  \<open>play\<close> of the functions below: given the world and a game it either raises or
  returns the winning competitor, the losing competitor and a loss-reason tag, and
  leaves the world changed.
\<close>

type_synonym ('p, 'w) play =
  "'w world \<Rightarrow> 'p board \<Rightarrow> error + (('p \<times> 'p \<times> string) \<times> 'w world)"

text \<open>
  \<^verbatim>\<open>play_fair_round(cpu_agent, test_agents, num_matches)\<close>. \<open>play_games\<close> is the inner
  loop \<^verbatim>\<open>for game in games\<close>. \<open>play_sequences\<close> is the outer loop over the generator:
  the games of an opponent are built when the loop asks for them, after the games of the
  opponents before it have been played.
\<close>

fun play_games ::
  "('p, 'w) play \<Rightarrow> 'w world \<Rightarrow> 'p board list \<Rightarrow> 'p counter \<Rightarrow> string counter
     \<Rightarrow> error + (('p counter \<times> string counter) \<times> 'w world)" where
  "play_games play wd [] win_counts loss_reason_counts =
     Inr ((win_counts, loss_reason_counts), wd)"
| "play_games play wd (game # games) win_counts loss_reason_counts =
     (case play wd game of
        Inl e \<Rightarrow> Inl e
      | Inr ((winner, _, loss_reason), wd1) \<Rightarrow>
          play_games play wd1 games
            (counter_incr win_counts winner) (counter_incr loss_reason_counts loss_reason))"

fun play_sequences ::
  "('p, 'w) play \<Rightarrow> 'w world \<Rightarrow> 'p agent \<Rightarrow> 'p agent list \<Rightarrow> move list list \<Rightarrow> nat
     \<Rightarrow> 'p counter \<Rightarrow> string counter
     \<Rightarrow> error + (('p counter \<times> string counter) \<times> 'w world)" where
  "play_sequences play wd agent [] openings num_matches win_counts loss_reason_counts =
     Inr ((win_counts, loss_reason_counts), wd)"
| "play_sequences play wd agent (opponent # opponents) openings num_matches
       win_counts loss_reason_counts =
     (case games_for wd agent opponent openings num_matches of
        Inl e \<Rightarrow> Inl e
      | Inr (games, wd1) \<Rightarrow>
          (case play_games play wd1 games win_counts loss_reason_counts of
             Inl e \<Rightarrow> Inl e
           | Inr ((win_counts1, loss_reason_counts1), wd2) \<Rightarrow>
               play_sequences play wd2 agent opponents openings num_matches
                 win_counts1 loss_reason_counts1))"

definition play_fair_round ::
  "('p, 'w) play \<Rightarrow> 'w world \<Rightarrow> 'p agent \<Rightarrow> 'p agent list \<Rightarrow> nat
     \<Rightarrow> error + (('p counter \<times> string counter) \<times> 'w world)" where
  "play_fair_round play wd cpu_agent test_agents num_matches =
     (case same_opening_moves num_matches wd of
        Inl e \<Rightarrow> Inl e
      | Inr (openings, wd1) \<Rightarrow>
          (case play_sequences play wd1 cpu_agent test_agents openings num_matches [] [] of
             Inl e \<Rightarrow> Inl e
           | Inr ((win_counts, loss_reason_counts), wd2) \<Rightarrow>
               if counter_sum win_counts = 2 * num_matches * length test_agents
               then Inr ((win_counts, loss_reason_counts), wd2)
               else Inl AssertionError))"

section \<open>Output\<close>

text \<open>
  The layout of the printed text is presentation and is not modelled: a printed line is
  the data it shows. \<open>RowLabel\<close> is the round number and the name of the reference agent,
  \<open>RowResults\<close> the won and lost games of every test agent in the round, \<open>WinRates\<close>
  the quotients that the last line shows as percentages, \<open>LossResults\<close> the timeout and
  forfeit counts. Python's float division is the exact quotient here.
\<close>

datatype line =
  Header "string list"
| RowLabel nat string
| RowResults "(nat \<times> int) list"
| DividingLine string
| WinRates "rat list"
| LossResults "(string \<times> nat) list"

definition format_header :: "'p agent list \<Rightarrow> string list" where
  "format_header test_agents = map name test_agents"

definition format_row_results :: "'p agent list \<Rightarrow> 'p counter \<Rightarrow> nat \<Rightarrow> (nat \<times> int) list" where
  "format_row_results test_agents win_counts num_games_each =
     map (\<lambda>agent. let num_wins = counter_get win_counts (player agent)
                   in (num_wins, int num_games_each - int num_wins)) test_agents"

definition format_loss_results :: "string counter \<Rightarrow> (string \<times> nat) list" where
  "format_loss_results reasons =
     (if ''timeout'' \<in> counter_keys reasons
      then [(''timeout'', counter_get reasons ''timeout'')] else []) @
     (if ''forfeit'' \<in> counter_keys reasons
      then [(''forfeit'', counter_get reasons ''forfeit'')] else [])"

fun format_win_rates :: "'p agent list \<Rightarrow> 'p counter \<Rightarrow> nat \<Rightarrow> error + rat list" where
  "format_win_rates [] all_test_agent_wins total_num_games = Inr []"
| "format_win_rates (agent # agents) all_test_agent_wins total_num_games =
     (let num_wins = counter_get all_test_agent_wins (player agent) in
      if total_num_games = 0 then Inl ZeroDivisionError
      else (case format_win_rates agents all_test_agent_wins total_num_games of
              Inl e \<Rightarrow> Inl e
            | Inr rates \<Rightarrow> Inr (of_nat num_wins / of_nat total_num_games # rates)))"

definition make_dividing_line :: "'p agent list \<Rightarrow> string" where
  "make_dividing_line test_agents = replicate (9 + 13 + 13 * length test_agents) (CHR ''-'')"

section \<open>tournament\_fair: the tournament\<close>

text \<open>
  \<^verbatim>\<open>run_fair_tournament(cpu_agents, test_agents, num_matches)\<close>. \<open>run_rounds\<close> is the
  loop \<^verbatim>\<open>for idx, cpu_agent in enumerate(cpu_agents)\<close> with its four variables: the two
  tournament-wide counters, the lines printed so far and the world. What has been printed
  stays printed when an exception ends the run, so the printed lines are returned beside
  the outcome.
\<close>

fun run_rounds ::
  "('p, 'w) play \<Rightarrow> 'p agent list \<Rightarrow> nat \<Rightarrow> nat \<Rightarrow> 'p agent list
     \<Rightarrow> 'p counter \<Rightarrow> string counter \<Rightarrow> line list \<Rightarrow> 'w world
     \<Rightarrow> line list \<times> (error + (('p counter \<times> string counter) \<times> 'w world))" where
  "run_rounds play test_agents num_matches idx []
       all_test_agent_wins all_loss_reasons out wd =
     (out, Inr ((all_test_agent_wins, all_loss_reasons), wd))"
| "run_rounds play test_agents num_matches idx (cpu_agent # cpu_agents)
       all_test_agent_wins all_loss_reasons out wd =
     (let out1 = out @ [RowLabel (idx + 1) (name cpu_agent)] in
      case play_fair_round play wd cpu_agent test_agents num_matches of
        Inl e \<Rightarrow> (out1, Inl e)
      | Inr ((win_counts, loss_reasons), wd1) \<Rightarrow>
          (let num_games_each = 2 * num_matches;
               out2 = out1 @ [RowResults (format_row_results test_agents win_counts num_games_each)];
               all_loss_reasons1 = counter_update all_loss_reasons loss_reasons;
               win_counts1 = counter_del win_counts (player cpu_agent);
               all_test_agent_wins1 = counter_update all_test_agent_wins win_counts1
           in run_rounds play test_agents num_matches (idx + 1) cpu_agents
                all_test_agent_wins1 all_loss_reasons1 out2 wd1))"

definition run_fair_tournament ::
  "('p, 'w) play \<Rightarrow> 'w world \<Rightarrow> 'p agent list \<Rightarrow> 'p agent list \<Rightarrow> nat
     \<Rightarrow> line list \<times> (error + (('p counter \<times> string counter) \<times> 'w world))" where
  "run_fair_tournament play wd cpu_agents test_agents num_matches =
     (case run_rounds play test_agents num_matches 0 cpu_agents [] []
             [Header (format_header test_agents)] wd of
        (out, Inl e) \<Rightarrow> (out, Inl e)
      | (out, Inr ((all_test_agent_wins, all_loss_reasons), wd1)) \<Rightarrow>
          (let out1 = out @ [DividingLine (make_dividing_line test_agents)];
               total_num_games_per_test_agent = 2 * num_matches * length cpu_agents
           in if length all_test_agent_wins \<noteq> length test_agents then (out1, Inl AssertionError)
              else if \<not> counter_sum all_test_agent_wins
                          \<le> total_num_games_per_test_agent * length test_agents
              then (out1, Inl AssertionError)
              else (case format_win_rates test_agents all_test_agent_wins
                           total_num_games_per_test_agent of
                      Inl e \<Rightarrow> (out1, Inl e)
                    | Inr rates \<Rightarrow>
                        (out1 @ [WinRates rates, LossResults (format_loss_results all_loss_reasons)],
                         Inr ((all_test_agent_wins, all_loss_reasons), wd1)))))"

section \<open>Notions used in the statements\<close>

text \<open>
  A cell \<open>(row, column)\<close> lies on a board of the given width and height. A legal opening
  is a list of distinct cells of the board: each is blank when its turn comes.
\<close>

definition on_board :: "int \<Rightarrow> int \<Rightarrow> move \<Rightarrow> bool" where
  "on_board w h m = (0 \<le> fst m \<and> fst m < h \<and> 0 \<le> snd m \<and> snd m < w)"

definition legal_opening :: "int \<Rightarrow> int \<Rightarrow> move list \<Rightarrow> bool" where
  "legal_opening w h ms = (distinct ms \<and> list_all (on_board w h) ms)"

text \<open>The board after one legal move, and after a list of legal moves.\<close>

definition moved :: "'p board \<Rightarrow> move \<Rightarrow> 'p board" where
  "moved b m = b\<lparr>active_player := inactive_player b, inactive_player := active_player b,
                 occupied := insert m (occupied b)\<rparr>"

fun after_moves :: "'p board \<Rightarrow> move list \<Rightarrow> 'p board" where
  "after_moves b [] = b"
| "after_moves b (m # ms) = after_moves (moved b m) ms"

text \<open>
  An opening pair as the sampler makes it on the default board: two distinct cells of the
  seven by seven board.
\<close>

definition opening_pair :: "move list \<Rightarrow> bool" where
  "opening_pair ms = (length ms = 2 \<and> legal_opening 7 7 ms)"

text \<open>
  The two games of a fair match on the default board, and the sequence of games that one
  opponent is given when the fair matches of a list of openings are laid end to end.
\<close>

definition fair_pair :: "'p \<Rightarrow> 'p \<Rightarrow> move list \<Rightarrow> 'p board list" where
  "fair_pair p1 p2 ms = [after_moves (Board p1 p2 7 7) ms, after_moves (Board p2 p1 7 7) ms]"

definition sequence_for :: "'p agent \<Rightarrow> move list list \<Rightarrow> 'p agent \<Rightarrow> 'p board list" where
  "sequence_for agent openings opponent =
     concat (map (fair_pair (player agent) (player opponent)) openings)"

text \<open>
  The competitors registered with a game, and what the specification asks of the play
  collaborator. \<open>winner_registered\<close>: whenever a game is played to its end, the winner
  named is one of the two competitors registered with that game. \<open>play_returns\<close>: no
  game raises.
\<close>

definition registered :: "'p board \<Rightarrow> 'p set" where
  "registered g = {player_1 g, player_2 g}"

definition winner_registered :: "('p, 'w) play \<Rightarrow> bool" where
  "winner_registered play =
     (\<forall>wd g winner loser reason wd'.
        play wd g = Inr ((winner, loser, reason), wd') \<longrightarrow> winner \<in> registered g)"

definition play_returns :: "('p, 'w) play \<Rightarrow> bool" where
  "play_returns play = (\<forall>wd g. \<exists>r wd'. play wd g = Inr (r, wd'))"

text \<open>All games of a round in the order in which they are played.\<close>

definition round_games :: "'p agent \<Rightarrow> move list list \<Rightarrow> 'p agent list \<Rightarrow> 'p board list" where
  "round_games agent openings opponents = concat (map (sequence_for agent openings) opponents)"

text \<open>A counter all of whose entries are positive, as \<^verbatim>\<open>c[k] += 1\<close> leaves them.\<close>

definition positive :: "'k counter \<Rightarrow> bool" where
  "positive c = list_all (\<lambda>kv. 0 < snd kv) c"

text \<open>
  The win counts that \<open>play_fair_round\<close> returns in the successive rounds of a
  tournament, before anything is removed from them.
\<close>

fun round_counts ::
  "('p, 'w) play \<Rightarrow> 'w world \<Rightarrow> 'p agent list \<Rightarrow> 'p agent list \<Rightarrow> nat
     \<Rightarrow> error + 'p counter list" where
  "round_counts play wd [] test_agents n = Inr []"
| "round_counts play wd (cpu_agent # cpu_agents) test_agents n =
     (case play_fair_round play wd cpu_agent test_agents n of
        Inl e \<Rightarrow> Inl e
      | Inr ((win_counts, _), wd1) \<Rightarrow>
          (case round_counts play wd1 cpu_agents test_agents n of
             Inl e \<Rightarrow> Inl e
           | Inr rest \<Rightarrow> Inr (win_counts # rest)))"


section \<open>Concrete inputs\<close>

text \<open>
  A world, a reference agent and four test agents with the same name and evaluation
  function, as in the test suite. Player objects are told apart by their identity, here a
  number.
\<close>

definition example_world :: "unit world" where
  "example_world = \<lparr>seed = (\<lambda>i. 5 * i + 3), draws = 0, hidden = ()\<rparr>"

definition example_anchor :: "nat agent" where
  "example_anchor = Agent 0 ''Random''"

definition example_test_agents :: "nat agent list" where
  "example_test_agents =
     [Agent 1 ''AB_Improved'', Agent 2 ''AB_Improved'', Agent 3 ''AB_Improved'',
      Agent 4 ''AB_Improved'']"

definition example_cpu_agents :: "nat agent list" where
  "example_cpu_agents = [Agent 0 ''Random'', Agent 5 ''MM_Open'']"

text \<open>
  Three play collaborators. With \<open>play_first\<close> the first registered player of a game
  wins; with \<open>play_lowest\<close> the player with the lower number wins; \<open>play_failing\<close>
  counts the games in the hidden part of the world and raises in the sixth.
\<close>

definition play_first :: "(nat, unit) play" where
  "play_first wd g = Inr ((player_1 g, player_2 g, ''illegal move''), wd)"

definition play_lowest :: "(nat, unit) play" where
  "play_lowest wd g =
     Inr ((min (player_1 g) (player_2 g), max (player_1 g) (player_2 g), ''timeout''), wd)"

definition play_failing :: "(nat, nat) play" where
  "play_failing wd g =
     (if hidden wd = 5 then Inl (PlayFailure ''search error'')
      else Inr ((player_1 g, player_2 g, ''illegal move''), wd\<lparr>hidden := hidden wd + 1\<rparr>))"

definition example_world_counting :: "nat \<Rightarrow> nat world" where
  "example_world_counting played = \<lparr>seed = (\<lambda>i. 7 * i + 2), draws = 0, hidden = played\<rparr>"

section \<open>The board\<close>

lemma set_get_blank_spaces:
  "set (get_blank_spaces b) = {m. on_board (width b) (height b) m \<and> m \<notin> occupied b}"
  by (auto simp: get_blank_spaces_def on_board_def)

lemma get_blank_spaces_cong:
  "width b = width c \<Longrightarrow> height b = height c \<Longrightarrow> occupied b = occupied c \<Longrightarrow>
   get_blank_spaces b = get_blank_spaces c"
  by (simp add: get_blank_spaces_def)

lemma apply_move_legal:
  "on_board (width b) (height b) m \<Longrightarrow> m \<notin> occupied b \<Longrightarrow> apply_move b m = Inr (moved b m)"
  by (simp add: apply_move_def get_legal_moves_def set_get_blank_spaces moved_def)

lemma apply_move_illegal:
  "\<not> on_board (width b) (height b) m \<or> m \<in> occupied b \<Longrightarrow> apply_move b m = Inl IllegalMove"
  by (auto simp add: apply_move_def get_legal_moves_def set_get_blank_spaces)

lemma moved_simps [simp]:
  "width (moved b m) = width b" "height (moved b m) = height b"
  "player_1 (moved b m) = player_1 b" "player_2 (moved b m) = player_2 b"
  "active_player (moved b m) = inactive_player b" "inactive_player (moved b m) = active_player b"
  "occupied (moved b m) = insert m (occupied b)"
  by (simp_all add: moved_def)

lemma Board_simps [simp]:
  "width (Board p1 p2 w h) = w" "height (Board p1 p2 w h) = h"
  "player_1 (Board p1 p2 w h) = p1" "player_2 (Board p1 p2 w h) = p2"
  "active_player (Board p1 p2 w h) = p1" "inactive_player (Board p1 p2 w h) = p2"
  "occupied (Board p1 p2 w h) = {}"
  by (simp_all add: Board_def)

lemma after_moves_frame [simp]:
  "width (after_moves b ms) = width b" "height (after_moves b ms) = height b"
  "player_1 (after_moves b ms) = player_1 b" "player_2 (after_moves b ms) = player_2 b"
  by (induction ms arbitrary: b) simp_all

lemma occupied_after_moves [simp]: "occupied (after_moves b ms) = occupied b \<union> set ms"
  by (induction ms arbitrary: b) auto

lemma active_after_moves:
  "active_player (after_moves b ms) =
     (if even (length ms) then active_player b else inactive_player b)"
  "inactive_player (after_moves b ms) =
     (if even (length ms) then inactive_player b else active_player b)"
  by (induction ms arbitrary: b) auto

section \<open>Building one fair match\<close>

lemma apply_to_boards_legal:
  "\<forall>b \<in> set bs. on_board (width b) (height b) m \<and> m \<notin> occupied b \<Longrightarrow>
   apply_to_boards bs m = Inr (map (\<lambda>b. moved b m) bs)"
  by (induction bs) (simp_all add: apply_move_legal)

lemma apply_opening_legal:
  "distinct ms \<Longrightarrow>
   \<forall>b \<in> set bs. \<forall>m \<in> set ms. on_board (width b) (height b) m \<and> m \<notin> occupied b \<Longrightarrow>
   apply_opening bs ms = Inr (map (\<lambda>b. after_moves b ms) bs)"
proof (induction ms arbitrary: bs)
  case Nil
  then show ?case by simp
next
  case (Cons m ms)
  have step: "apply_to_boards bs m = Inr (map (\<lambda>b. moved b m) bs)"
    using Cons.prems by (intro apply_to_boards_legal) simp
  have "apply_opening (map (\<lambda>b. moved b m) bs) ms =
          Inr (map (\<lambda>b. after_moves b ms) (map (\<lambda>b. moved b m) bs))"
    using Cons.prems by (intro Cons.IH) auto
  with step show ?case by (simp add: comp_def)
qed

lemma prepare_fair_match_supplied:
  assumes "ms \<noteq> []" "legal_opening w h ms"
  shows "prepare_fair_match wd p1 p2 (Some ms) w h =
           Inr (([after_moves (Board p1 p2 w h) ms, after_moves (Board p2 p1 w h) ms], ms), wd)"
proof -
  obtain m rest where ms: "ms = m # rest" using assms(1) by (cases ms) auto
  have "apply_opening [Board p1 p2 w h, Board p2 p1 w h] ms =
          Inr (map (\<lambda>b. after_moves b ms) [Board p1 p2 w h, Board p2 p1 w h])"
    using assms(2) by (intro apply_opening_legal) (auto simp: legal_opening_def list_all_iff)
  then show ?thesis
    by (simp add: prepare_fair_match_def ms)
qed

lemma prepare_fair_match_empty_list:
  "prepare_fair_match wd p1 p2 (Some []) w h = prepare_fair_match wd p1 p2 None w h"
  by (simp add: prepare_fair_match_def)

text \<open>
  C2. For any two competitors \<open>A\<close> and \<open>B\<close> and any opening pair of two distinct cells of
  the board, \<open>prepare_fair_match\<close> returns exactly two games. After the openings both
  have the same occupied cells, the two opening cells, and the same blank spaces.
  The registrations are swapped: \<open>A\<close> is the first player of the first game and the
  second player of the second game, \<open>B\<close> the other way round; and as two moves have
  been made, the player to move is \<open>A\<close> in the first game and \<open>B\<close> in the second.
\<close>

theorem prepare_fair_match_mirrored:
  assumes "on_board w h m1" "on_board w h m2" "m1 \<noteq> m2"
  shows "\<exists>b0 b1.
           prepare_fair_match wd A B (Some [m1, m2]) w h = Inr (([b0, b1], [m1, m2]), wd) \<and>
           occupied b0 = {m1, m2} \<and> occupied b1 = {m1, m2} \<and>
           get_blank_spaces b0 = get_blank_spaces b1 \<and>
           player_1 b0 = A \<and> player_2 b0 = B \<and> player_1 b1 = B \<and> player_2 b1 = A \<and>
           active_player b0 = A \<and> inactive_player b0 = B \<and>
           active_player b1 = B \<and> inactive_player b1 = A"
proof -
  let ?b0 = "after_moves (Board A B w h) [m1, m2]"
  let ?b1 = "after_moves (Board B A w h) [m1, m2]"
  have legal: "legal_opening w h [m1, m2]"
    using assms by (simp add: legal_opening_def)
  have run: "prepare_fair_match wd A B (Some [m1, m2]) w h = Inr (([?b0, ?b1], [m1, m2]), wd)"
    using legal by (intro prepare_fair_match_supplied) simp
  have occ: "occupied ?b0 = {m1, m2}" "occupied ?b1 = {m1, m2}"
    by (simp_all only: occupied_after_moves Board_simps) auto
  have blank: "get_blank_spaces ?b0 = get_blank_spaces ?b1"
    by (rule get_blank_spaces_cong) (simp_all only: after_moves_frame Board_simps occ)
  have regs: "player_1 ?b0 = A" "player_2 ?b0 = B" "player_1 ?b1 = B" "player_2 ?b1 = A"
    by (simp_all only: after_moves_frame Board_simps)
  have turn: "active_player ?b0 = A" "inactive_player ?b0 = B"
             "active_player ?b1 = B" "inactive_player ?b1 = A"
    by (simp_all add: active_after_moves)
  from run occ blank regs turn show ?thesis by blast
qed

theorem prepare_fair_match_mirrored_witness:
  "\<exists>b0 b1.
     prepare_fair_match \<lparr>seed = (\<lambda>i. i), draws = 0, hidden = ()\<rparr> ''Player1'' ''Player2''
         (Some [(3, 3), (0, 6)]) 7 7 =
       Inr (([b0, b1], [(3, 3), (0, 6)]), \<lparr>seed = (\<lambda>i. i), draws = 0, hidden = ()\<rparr>) \<and>
     occupied b0 = {(3, 3), (0, 6)} \<and> occupied b1 = {(3, 3), (0, 6)} \<and>
     get_blank_spaces b0 = get_blank_spaces b1 \<and>
     player_1 b0 = ''Player1'' \<and> player_2 b0 = ''Player2'' \<and>
     player_1 b1 = ''Player2'' \<and> player_2 b1 = ''Player1'' \<and>
     active_player b0 = ''Player1'' \<and> inactive_player b0 = ''Player2'' \<and>
     active_player b1 = ''Player2'' \<and> inactive_player b1 = ''Player1''"
proof -
  have "on_board 7 7 (3, 3)" "on_board 7 7 (0, 6)" "((3, 3) :: move) \<noteq> (0, 6)"
    by (simp_all add: on_board_def)
  then show ?thesis by (rule prepare_fair_match_mirrored)
qed

text \<open>
  C5. When the caller supplies an opening, a non-empty list of distinct cells of the
  board, \<open>prepare_fair_match\<close> returns that very list as the opening played, and the
  world it leaves is the world it was given: no draw was taken from the random
  generator, so the position sampler did not run.
\<close>

theorem prepare_fair_match_keeps_opening:
  assumes "ms \<noteq> []" "legal_opening w h ms"
  shows "\<exists>boards. prepare_fair_match wd A B (Some ms) w h = Inr ((boards, ms), wd)"
  using prepare_fair_match_supplied [OF assms, of wd A B] by simp

theorem prepare_fair_match_keeps_opening_witness:
  "\<exists>boards.
     prepare_fair_match \<lparr>seed = (\<lambda>i. 7 * i), draws = 4, hidden = ()\<rparr> ''Player1'' ''Player2''
         (Some [(2, 5), (6, 1)]) 7 7 =
       Inr ((boards, [(2, 5), (6, 1)]), \<lparr>seed = (\<lambda>i. 7 * i), draws = 4, hidden = ()\<rparr>)"
proof -
  have "[(2, 5), (6, 1)] \<noteq> ([] :: move list)" "legal_opening 7 7 [(2, 5), (6, 1)]"
    by (simp_all add: legal_opening_def on_board_def)
  then show ?thesis by (rule prepare_fair_match_keeps_opening)
qed

section \<open>The position sampler\<close>

lemma random_choice_member:
  "xs \<noteq> [] \<Longrightarrow> \<exists>m \<in> set xs. random_choice wd xs = Inr (m, wd\<lparr>draws := Suc (draws wd)\<rparr>)"
  by (simp add: random_choice_def)

lemma other_cell:
  assumes "0 < w" "0 < h" "2 \<le> w * h"
  shows "\<exists>m'. on_board w h m' \<and> m' \<noteq> (m :: move)"
proof (cases "m = (0, 0)")
  case False
  with assms show ?thesis by (intro exI [of _ "(0, 0)"]) (simp add: on_board_def)
next
  case True
  show ?thesis
  proof (cases "2 \<le> w")
    case True
    with assms \<open>m = (0, 0)\<close> show ?thesis by (intro exI [of _ "(0, 1)"]) (simp add: on_board_def)
  next
    case False
    with assms have "w = 1" by simp
    with assms have "2 \<le> h" by simp
    with assms \<open>m = (0, 0)\<close> show ?thesis by (intro exI [of _ "(1, 0)"]) (simp add: on_board_def)
  qed
qed

lemma get_random_starting_positions_ok:
  assumes "0 < w" "0 < h" "2 \<le> w * h"
  shows "\<exists>m1 m2. get_random_starting_positions wd h w = Inr ([m1, m2], wd\<lparr>draws := draws wd + 2\<rparr>) \<and>
           on_board w h m1 \<and> on_board w h m2 \<and> m1 \<noteq> m2"
proof -
  let ?b = "Board [] [] w h :: string board"
  have "(0, 0) \<in> set (get_legal_moves ?b)"
    using assms by (simp add: get_legal_moves_def set_get_blank_spaces on_board_def)
  then have "get_legal_moves ?b \<noteq> []" by auto
  then obtain m1 where m1: "m1 \<in> set (get_legal_moves ?b)"
      "random_choice wd (get_legal_moves ?b) = Inr (m1, wd\<lparr>draws := Suc (draws wd)\<rparr>)"
    using random_choice_member by blast
  have on1: "on_board w h m1"
    using m1(1) by (simp add: get_legal_moves_def set_get_blank_spaces)
  have ap1: "apply_move ?b m1 = Inr (moved ?b m1)"
    using on1 by (intro apply_move_legal) simp_all
  let ?b1 = "moved ?b m1"
  let ?wd1 = "wd\<lparr>draws := Suc (draws wd)\<rparr>"
  obtain m' where "on_board w h m'" "m' \<noteq> m1" using other_cell [OF assms] by blast
  then have "m' \<in> set (get_legal_moves ?b1)"
    by (simp add: get_legal_moves_def set_get_blank_spaces)
  then have "get_legal_moves ?b1 \<noteq> []" by auto
  then obtain m2 where m2: "m2 \<in> set (get_legal_moves ?b1)"
      "random_choice ?wd1 (get_legal_moves ?b1) = Inr (m2, ?wd1\<lparr>draws := Suc (draws ?wd1)\<rparr>)"
    using random_choice_member by blast
  have on2: "on_board w h m2" "m2 \<noteq> m1"
    using m2(1) by (simp_all add: get_legal_moves_def set_get_blank_spaces)
  have ap2: "apply_move ?b1 m2 = Inr (moved ?b1 m2)"
    using on2 by (intro apply_move_legal) simp_all
  have "get_random_starting_positions wd h w = Inr ([m1, m2], wd\<lparr>draws := draws wd + 2\<rparr>)"
    by (simp add: get_random_starting_positions_def eval_nat_numeral m1(2) ap1 m2(2) ap2)
  with on1 on2 show ?thesis by blast
qed

lemma sample_default:
  "\<exists>ms. get_random_starting_positions wd 7 7 = Inr (ms, wd\<lparr>draws := draws wd + 2\<rparr>) \<and> opening_pair ms"
proof -
  obtain m1 m2 where "get_random_starting_positions wd 7 7 = Inr ([m1, m2], wd\<lparr>draws := draws wd + 2\<rparr>)"
      "on_board 7 7 m1" "on_board 7 7 m2" "m1 \<noteq> m2"
    using get_random_starting_positions_ok [of 7 7 wd] by auto
  then show ?thesis by (auto simp: opening_pair_def legal_opening_def)
qed

lemma same_opening_moves_ok:
  "\<exists>openings. same_opening_moves n wd = Inr (openings, wd\<lparr>draws := draws wd + 2 * n\<rparr>) \<and>
     length openings = n \<and> list_all opening_pair openings"
proof (induction n arbitrary: wd)
  case 0
  then show ?case by simp
next
  case (Suc n)
  obtain ms where ms: "get_random_starting_positions wd 7 7 = Inr (ms, wd\<lparr>draws := draws wd + 2\<rparr>)"
      "opening_pair ms"
    using sample_default by blast
  obtain rest where rest:
      "same_opening_moves n (wd\<lparr>draws := draws wd + 2\<rparr>) =
         Inr (rest, wd\<lparr>draws := draws wd + 2\<rparr>\<lparr>draws := draws (wd\<lparr>draws := draws wd + 2\<rparr>) + 2 * n\<rparr>)"
      "length rest = n" "list_all opening_pair rest"
    using Suc.IH by blast
  show ?case
    using ms rest by (intro exI [of _ "ms # rest"]) simp
qed

lemma build_games_ok:
  "list_all opening_pair openings \<Longrightarrow>
   build_games wd agent opponent openings games =
     Inr (games @ sequence_for agent openings opponent, wd)"
proof (induction openings arbitrary: games)
  case Nil
  then show ?case by (simp add: sequence_for_def)
next
  case (Cons ms openings)
  then have "ms \<noteq> []" "legal_opening 7 7 ms" by (auto simp: opening_pair_def)
  then have "prepare_fair_match wd (player agent) (player opponent) (Some ms) 7 7 =
               Inr ((fair_pair (player agent) (player opponent) ms, ms), wd)"
    unfolding fair_pair_def by (rule prepare_fair_match_supplied)
  with Cons show ?case by (simp add: sequence_for_def)
qed

lemma length_sequence_for: "length (sequence_for agent openings opponent) = 2 * length openings"
  by (induction openings) (simp_all add: sequence_for_def fair_pair_def)

lemma games_for_ok:
  "list_all opening_pair openings \<Longrightarrow> length openings = n \<Longrightarrow>
   games_for wd agent opponent openings n = Inr (sequence_for agent openings opponent, wd)"
  by (simp add: games_for_def build_games_ok length_sequence_for)

lemma yield_all_ok:
  "list_all opening_pair openings \<Longrightarrow> length openings = n \<Longrightarrow>
   yield_all wd agent opponents openings n = Inr (map (sequence_for agent openings) opponents, wd)"
  by (induction opponents) (simp_all add: games_for_ok)

lemma prepare_same_fair_matches_ok:
  "\<exists>openings. same_opening_moves n wd = Inr (openings, wd\<lparr>draws := draws wd + 2 * n\<rparr>) \<and>
     length openings = n \<and> list_all opening_pair openings \<and>
     prepare_same_fair_matches wd agent opponents n =
       Inr (map (sequence_for agent openings) opponents, wd\<lparr>draws := draws wd + 2 * n\<rparr>)"
proof -
  obtain openings where o: "same_opening_moves n wd = Inr (openings, wd\<lparr>draws := draws wd + 2 * n\<rparr>)"
      "length openings = n" "list_all opening_pair openings"
    using same_opening_moves_ok by blast
  then show ?thesis
    by (intro exI [of _ openings]) (simp add: prepare_same_fair_matches_def yield_all_ok)
qed


section \<open>The sequences of one round\<close>

lemma sequence_for_Cons:
  "sequence_for agent (ms # openings) opponent =
     after_moves (Board (player agent) (player opponent) 7 7) ms #
     after_moves (Board (player opponent) (player agent) 7 7) ms #
     sequence_for agent openings opponent"
  by (simp add: sequence_for_def fair_pair_def)

lemma sequence_for_nth:
  "j < length openings \<Longrightarrow>
   sequence_for agent openings opponent ! (2 * j) =
     after_moves (Board (player agent) (player opponent) 7 7) (openings ! j) \<and>
   sequence_for agent openings opponent ! (2 * j + 1) =
     after_moves (Board (player opponent) (player agent) 7 7) (openings ! j)"
proof (induction openings arbitrary: j)
  case Nil
  then show ?case by simp
next
  case (Cons ms openings)
  show ?case
  proof (cases j)
    case 0
    then show ?thesis by (simp add: sequence_for_Cons)
  next
    case (Suc j')
    with Cons.prems have "j' < length openings" by simp
    from Cons.IH [OF this] Suc show ?thesis by (simp add: sequence_for_Cons)
  qed
qed

text \<open>The game at any index of a sequence: its footprint, registrations and turn.\<close>

lemma sequence_for_game:
  assumes "list_all opening_pair openings" "i < 2 * length openings"
  shows "occupied (sequence_for agent openings opponent ! i) = set (openings ! (i div 2))"
    and "width (sequence_for agent openings opponent ! i) = 7"
    and "height (sequence_for agent openings opponent ! i) = 7"
    and "player_1 (sequence_for agent openings opponent ! i) =
           (if even i then player agent else player opponent)"
    and "player_2 (sequence_for agent openings opponent ! i) =
           (if even i then player opponent else player agent)"
    and "active_player (sequence_for agent openings opponent ! i) =
           (if even i then player agent else player opponent)"
    and "inactive_player (sequence_for agent openings opponent ! i) =
           (if even i then player opponent else player agent)"
proof -
  let ?j = "i div 2"
  have j: "?j < length openings" using assms(2) by auto
  then have "opening_pair (openings ! ?j)"
    using assms(1) by (simp add: list_all_length)
  then have len: "even (length (openings ! ?j))" by (simp add: opening_pair_def)
  note nth = sequence_for_nth [OF j, of agent opponent]
  let ?g = "sequence_for agent openings opponent ! i"
  have g: "?g = (if even i then after_moves (Board (player agent) (player opponent) 7 7) (openings ! ?j)
                 else after_moves (Board (player opponent) (player agent) 7 7) (openings ! ?j))"
  proof (cases "even i")
    case True
    then obtain k where k: "i = 2 * k" by (rule evenE)
    then have "k = ?j" by simp
    with k nth True show ?thesis by simp
  next
    case False
    then obtain k where k: "i = 2 * k + 1" by (rule oddE)
    then have "k = ?j" by simp
    with k nth False show ?thesis by simp
  qed
  show "occupied ?g = set (openings ! (i div 2))"
    by (simp add: g)
  show "width ?g = 7"
    by (simp add: g)
  show "height ?g = 7"
    by (simp add: g)
  show "player_1 ?g = (if even i then player agent else player opponent)"
    by (simp add: g)
  show "player_2 ?g = (if even i then player opponent else player agent)"
    by (simp add: g)
  show "active_player ?g = (if even i then player agent else player opponent)"
    by (simp add: g active_after_moves len)
  show "inactive_player ?g = (if even i then player opponent else player agent)"
    by (simp add: g active_after_moves len)
qed


lemma set_sequence_for:
  "set (sequence_for agent openings opponent) =
     (\<Union>ms \<in> set openings. {after_moves (Board (player agent) (player opponent) 7 7) ms,
                              after_moves (Board (player opponent) (player agent) 7 7) ms})"
  by (simp add: sequence_for_def fair_pair_def)

lemma pair_differs: "p \<noteq> q \<Longrightarrow> {x, p} \<noteq> {x, q}" "p \<noteq> q \<Longrightarrow> {p, x} \<noteq> {q, x}"
  by (auto simp: doubleton_eq_iff)

lemma same_index_same_footprint:
  assumes "list_all opening_pair openings" "i < 2 * length openings"
  shows "occupied (sequence_for agent openings o1 ! i) = occupied (sequence_for agent openings o2 ! i)"
    and "get_blank_spaces (sequence_for agent openings o1 ! i) =
         get_blank_spaces (sequence_for agent openings o2 ! i)"
proof -
  note g1 = sequence_for_game [OF assms, of agent o1]
  note g2 = sequence_for_game [OF assms, of agent o2]
  show occ: "occupied (sequence_for agent openings o1 ! i) = occupied (sequence_for agent openings o2 ! i)"
    by (simp only: g1(1) g2(1))
  show "get_blank_spaces (sequence_for agent openings o1 ! i) =
        get_blank_spaces (sequence_for agent openings o2 ! i)"
    by (rule get_blank_spaces_cong) (simp_all only: g1(2,3) g2(2,3) occ)
qed

lemma same_index_other_pair:
  assumes "list_all opening_pair openings" "i < 2 * length openings" "player o1 \<noteq> player o2"
  shows "{player_1 (sequence_for agent openings o1 ! i), player_2 (sequence_for agent openings o1 ! i)} \<noteq>
         {player_1 (sequence_for agent openings o2 ! i), player_2 (sequence_for agent openings o2 ! i)}"
    and "{active_player (sequence_for agent openings o1 ! i), inactive_player (sequence_for agent openings o1 ! i)} \<noteq>
         {active_player (sequence_for agent openings o2 ! i), inactive_player (sequence_for agent openings o2 ! i)}"
proof -
  note g1 = sequence_for_game [OF assms(1,2), of agent o1]
  note g2 = sequence_for_game [OF assms(1,2), of agent o2]
  show "{player_1 (sequence_for agent openings o1 ! i), player_2 (sequence_for agent openings o1 ! i)} \<noteq>
        {player_1 (sequence_for agent openings o2 ! i), player_2 (sequence_for agent openings o2 ! i)}"
    unfolding g1(4,5) g2(4,5) using pair_differs [OF assms(3)] by (cases "even i") simp_all
  show "{active_player (sequence_for agent openings o1 ! i), inactive_player (sequence_for agent openings o1 ! i)} \<noteq>
        {active_player (sequence_for agent openings o2 ! i), inactive_player (sequence_for agent openings o2 ! i)}"
    unfolding g1(6,7) g2(6,7) using pair_differs [OF assms(3)] by (cases "even i") simp_all
qed


text \<open>
  C1, as amended. For every reference agent, every list of \<open>k\<close> opponents whose player
  objects are pairwise distinct and every number \<open>n\<close> of matches,
  \<open>prepare_same_fair_matches\<close> yields exactly \<open>k\<close> sequences, each of \<open>2 * n\<close> games.
  At every index below \<open>2 * n\<close> the games of all sequences have the same occupied cells
  and the same blank spaces, and the games of two different sequences have different
  unordered pairs of competitors, both as registered and as active and inactive player.
\<close>

theorem prepare_same_fair_matches_shared_openings:
  assumes "distinct (map player opponents)"
  shows "\<exists>seqs wd'.
           prepare_same_fair_matches wd agent opponents n = Inr (seqs, wd') \<and>
           length seqs = length opponents \<and>
           (\<forall>s \<in> set seqs. length s = 2 * n) \<and>
           (\<forall>i < 2 * n. \<forall>a < length opponents. \<forall>b < length opponents.
              occupied (seqs ! a ! i) = occupied (seqs ! b ! i) \<and>
              get_blank_spaces (seqs ! a ! i) = get_blank_spaces (seqs ! b ! i) \<and>
              (a \<noteq> b \<longrightarrow>
                 {player_1 (seqs ! a ! i), player_2 (seqs ! a ! i)} \<noteq>
                 {player_1 (seqs ! b ! i), player_2 (seqs ! b ! i)} \<and>
                 {active_player (seqs ! a ! i), inactive_player (seqs ! a ! i)} \<noteq>
                 {active_player (seqs ! b ! i), inactive_player (seqs ! b ! i)}))"
proof -
  obtain openings where o: "length openings = n" "list_all opening_pair openings"
      "prepare_same_fair_matches wd agent opponents n =
         Inr (map (sequence_for agent openings) opponents, wd\<lparr>draws := draws wd + 2 * n\<rparr>)"
    using prepare_same_fair_matches_ok [of n wd agent opponents] by blast
  define seqs where "seqs = map (sequence_for agent openings) opponents"
  have nth: "seqs ! a = sequence_for agent openings (opponents ! a)" if "a < length opponents" for a
    using that by (simp add: seqs_def)
  have len: "\<forall>s \<in> set seqs. length s = 2 * n"
    using o(1) by (auto simp: seqs_def length_sequence_for)
  have games: "\<forall>i < 2 * n. \<forall>a < length opponents. \<forall>b < length opponents.
              occupied (seqs ! a ! i) = occupied (seqs ! b ! i) \<and>
              get_blank_spaces (seqs ! a ! i) = get_blank_spaces (seqs ! b ! i) \<and>
              (a \<noteq> b \<longrightarrow>
                 {player_1 (seqs ! a ! i), player_2 (seqs ! a ! i)} \<noteq>
                 {player_1 (seqs ! b ! i), player_2 (seqs ! b ! i)} \<and>
                 {active_player (seqs ! a ! i), inactive_player (seqs ! a ! i)} \<noteq>
                 {active_player (seqs ! b ! i), inactive_player (seqs ! b ! i)})"
  proof (intro allI impI)
    fix i a b
    assume i: "i < 2 * n" and a: "a < length opponents" and b: "b < length opponents"
    have i': "i < 2 * length openings" using i o(1) by simp
    have differ: "player (opponents ! a) \<noteq> player (opponents ! b)" if "a \<noteq> b"
      using that a b assms by (simp add: distinct_conv_nth)
    show "occupied (seqs ! a ! i) = occupied (seqs ! b ! i) \<and>
          get_blank_spaces (seqs ! a ! i) = get_blank_spaces (seqs ! b ! i) \<and>
          (a \<noteq> b \<longrightarrow>
             {player_1 (seqs ! a ! i), player_2 (seqs ! a ! i)} \<noteq>
             {player_1 (seqs ! b ! i), player_2 (seqs ! b ! i)} \<and>
             {active_player (seqs ! a ! i), inactive_player (seqs ! a ! i)} \<noteq>
             {active_player (seqs ! b ! i), inactive_player (seqs ! b ! i)})"
      unfolding nth [OF a] nth [OF b]
      using same_index_same_footprint [OF o(2) i', of agent "opponents ! a" "opponents ! b"]
        same_index_other_pair [OF o(2) i', of "opponents ! a" "opponents ! b" agent] differ
      by blast
  qed
  have run: "prepare_same_fair_matches wd agent opponents n = Inr (seqs, wd\<lparr>draws := draws wd + 2 * n\<rparr>)"
    using o(3) by (simp add: seqs_def)
  have "length seqs = length opponents" by (simp add: seqs_def)
  with run len games show ?thesis by blast
qed


text \<open>
  The counterexample to the statement for every list of opponents: when the list names the
  same player object twice, the two sequences hold the same pair of competitors at the
  same index.
\<close>

theorem prepare_same_fair_matches_same_pair:
  "case prepare_same_fair_matches example_world (Agent (0::nat) ''Random'')
          [Agent 1 ''AB_Improved'', Agent 1 ''AB_Improved''] 1 of
     Inl e \<Rightarrow> False
   | Inr (seqs, wd') \<Rightarrow>
       length seqs = 2 \<and>
       {player_1 (seqs ! 0 ! 0), player_2 (seqs ! 0 ! 0)} =
       {player_1 (seqs ! 1 ! 0), player_2 (seqs ! 1 ! 0)} \<and>
       {active_player (seqs ! 0 ! 0), inactive_player (seqs ! 0 ! 0)} =
       {active_player (seqs ! 1 ! 0), inactive_player (seqs ! 1 ! 0)}"
  by code_simp

text \<open>
  C3. The scheduler draws its \<open>n\<close> opening pairs once, by the one run of
  \<open>same_opening_moves\<close> on the world it is given. The world it returns is the world
  after that run, \<open>2 * n\<close> draws later whatever the number of opponents; the sequence
  of every opponent is built from that one list and building it leaves the world as it is.
  So every game of every sequence has the footprint of one of the \<open>n\<close> opening pairs:
  the sequences use at most \<open>n\<close> distinct opening pairs and show at most \<open>n\<close> distinct
  footprints.
\<close>

theorem openings_sampled_once:
  "\<exists>openings seqs wd'.
     same_opening_moves n wd = Inr (openings, wd') \<and>
     draws wd' = draws wd + 2 * n \<and>
     length openings = n \<and>
     prepare_same_fair_matches wd agent opponents n = Inr (seqs, wd') \<and>
     length seqs = length opponents \<and>
     (\<forall>k < length opponents.
        games_for wd' agent (opponents ! k) openings n = Inr (seqs ! k, wd')) \<and>
     (\<forall>s \<in> set seqs. \<forall>g \<in> set s. \<exists>ms \<in> set openings. occupied g = set ms) \<and>
     card (set openings) \<le> n \<and>
     card (occupied ` (\<Union>s \<in> set seqs. set s)) \<le> n"
proof -
  let ?wd' = "wd\<lparr>draws := draws wd + 2 * n\<rparr>"
  obtain openings where o: "same_opening_moves n wd = Inr (openings, ?wd')"
      "length openings = n" "list_all opening_pair openings"
      "prepare_same_fair_matches wd agent opponents n =
         Inr (map (sequence_for agent openings) opponents, ?wd')"
    using prepare_same_fair_matches_ok [of n wd agent opponents] by blast
  define seqs where "seqs = map (sequence_for agent openings) opponents"
  have run: "prepare_same_fair_matches wd agent opponents n = Inr (seqs, ?wd')"
    using o(4) by (simp add: seqs_def)
  have len: "length seqs = length opponents" by (simp add: seqs_def)
  have each: "\<forall>k < length opponents.
                games_for ?wd' agent (opponents ! k) openings n = Inr (seqs ! k, ?wd')"
    using o(2,3) by (simp add: seqs_def games_for_ok)
  have foot: "\<forall>s \<in> set seqs. \<forall>g \<in> set s. \<exists>ms \<in> set openings. occupied g = set ms"
    by (auto simp: seqs_def set_sequence_for)
  have card_o: "card (set openings) \<le> n"
    using card_length [of openings] o(2) by simp
  have "occupied ` (\<Union>s \<in> set seqs. set s) \<subseteq> set ` set openings"
    using foot by (fastforce simp: image_iff)
  then have "card (occupied ` (\<Union>s \<in> set seqs. set s)) \<le> card (set ` set openings)"
    by (intro card_mono) simp_all
  also have "\<dots> \<le> card (set openings)" by (rule card_image_le) simp
  finally have card_f: "card (occupied ` (\<Union>s \<in> set seqs. set s)) \<le> n"
    using card_o by simp
  have "draws ?wd' = draws wd + 2 * n" by simp
  with o(1,2) run len each foot card_o card_f show ?thesis by blast
qed

text \<open>
  C10. In the sequence of every opponent and for every \<open>j\<close> below the number of matches,
  the games at indices \<open>2 * j\<close> and \<open>2 * j + 1\<close> are the two games that
  \<open>prepare_fair_match\<close> builds for the reference agent and that opponent from the
  \<open>j\<close>-th shared opening pair. The reference agent is the first player, and the player
  to move, of the game at the even index; the opponent is the first player, and the
  player to move, of the game at the odd index.
\<close>

theorem sequence_alternates_fair_matches:
  "\<exists>openings seqs wd'.
     same_opening_moves n wd = Inr (openings, wd') \<and>
     length openings = n \<and>
     prepare_same_fair_matches wd agent opponents n = Inr (seqs, wd') \<and>
     length seqs = length opponents \<and>
     (\<forall>k < length opponents. \<forall>j < n.
        prepare_fair_match wd' (player agent) (player (opponents ! k)) (Some (openings ! j)) 7 7 =
          Inr (([seqs ! k ! (2 * j), seqs ! k ! (2 * j + 1)], openings ! j), wd') \<and>
        player_1 (seqs ! k ! (2 * j)) = player agent \<and>
        player_2 (seqs ! k ! (2 * j)) = player (opponents ! k) \<and>
        active_player (seqs ! k ! (2 * j)) = player agent \<and>
        player_1 (seqs ! k ! (2 * j + 1)) = player (opponents ! k) \<and>
        player_2 (seqs ! k ! (2 * j + 1)) = player agent \<and>
        active_player (seqs ! k ! (2 * j + 1)) = player (opponents ! k))"
proof -
  let ?wd' = "wd\<lparr>draws := draws wd + 2 * n\<rparr>"
  obtain openings where o: "same_opening_moves n wd = Inr (openings, ?wd')"
      "length openings = n" "list_all opening_pair openings"
      "prepare_same_fair_matches wd agent opponents n =
         Inr (map (sequence_for agent openings) opponents, ?wd')"
    using prepare_same_fair_matches_ok [of n wd agent opponents] by blast
  define seqs where "seqs = map (sequence_for agent openings) opponents"
  have run: "prepare_same_fair_matches wd agent opponents n = Inr (seqs, ?wd')"
    using o(4) by (simp add: seqs_def)
  have len: "length seqs = length opponents" by (simp add: seqs_def)
  have pairs: "\<forall>k < length opponents. \<forall>j < n.
        prepare_fair_match ?wd' (player agent) (player (opponents ! k)) (Some (openings ! j)) 7 7 =
          Inr (([seqs ! k ! (2 * j), seqs ! k ! (2 * j + 1)], openings ! j), ?wd') \<and>
        player_1 (seqs ! k ! (2 * j)) = player agent \<and>
        player_2 (seqs ! k ! (2 * j)) = player (opponents ! k) \<and>
        active_player (seqs ! k ! (2 * j)) = player agent \<and>
        player_1 (seqs ! k ! (2 * j + 1)) = player (opponents ! k) \<and>
        player_2 (seqs ! k ! (2 * j + 1)) = player agent \<and>
        active_player (seqs ! k ! (2 * j + 1)) = player (opponents ! k)"
  proof (intro allI impI)
    fix k j
    assume k: "k < length opponents" and j: "j < n"
    have j': "j < length openings" using j o(2) by simp
    then have op: "opening_pair (openings ! j)"
      using o(3) by (simp add: list_all_length)
    then have ne: "openings ! j \<noteq> []" and legal: "legal_opening 7 7 (openings ! j)"
      and ev: "even (length (openings ! j))"
      by (auto simp: opening_pair_def)
    have sk: "seqs ! k = sequence_for agent openings (opponents ! k)"
      using k by (simp add: seqs_def)
    note nth = sequence_for_nth [OF j', of agent "opponents ! k"]
    have built: "prepare_fair_match ?wd' (player agent) (player (opponents ! k)) (Some (openings ! j)) 7 7 =
          Inr (([seqs ! k ! (2 * j), seqs ! k ! (2 * j + 1)], openings ! j), ?wd')"
      unfolding sk using prepare_fair_match_supplied [OF ne legal] nth by simp
    have regs: "player_1 (seqs ! k ! (2 * j)) = player agent"
        "player_2 (seqs ! k ! (2 * j)) = player (opponents ! k)"
        "active_player (seqs ! k ! (2 * j)) = player agent"
        "player_1 (seqs ! k ! (2 * j + 1)) = player (opponents ! k)"
        "player_2 (seqs ! k ! (2 * j + 1)) = player agent"
        "active_player (seqs ! k ! (2 * j + 1)) = player (opponents ! k)"
      unfolding sk using nth by (simp_all add: active_after_moves ev)
    from built regs
    show "prepare_fair_match ?wd' (player agent) (player (opponents ! k)) (Some (openings ! j)) 7 7 =
          Inr (([seqs ! k ! (2 * j), seqs ! k ! (2 * j + 1)], openings ! j), ?wd') \<and>
        player_1 (seqs ! k ! (2 * j)) = player agent \<and>
        player_2 (seqs ! k ! (2 * j)) = player (opponents ! k) \<and>
        active_player (seqs ! k ! (2 * j)) = player agent \<and>
        player_1 (seqs ! k ! (2 * j + 1)) = player (opponents ! k) \<and>
        player_2 (seqs ! k ! (2 * j + 1)) = player agent \<and>
        active_player (seqs ! k ! (2 * j + 1)) = player (opponents ! k)"
      by simp
  qed
  from o(1,2) run len pairs show ?thesis by blast
qed


lemma example_test_agents_simps:
  "length example_test_agents = 4" "distinct (map player example_test_agents)"
  "map player example_test_agents = [1, 2, 3, 4]"
  by (simp_all add: example_test_agents_def Agent_def)

theorem prepare_same_fair_matches_shared_openings_witness:
  "\<exists>seqs wd'.
     prepare_same_fair_matches example_world example_anchor example_test_agents 5 = Inr (seqs, wd') \<and>
     length seqs = 4 \<and>
     occupied (seqs ! 0 ! 3) = occupied (seqs ! 2 ! 3) \<and>
     get_blank_spaces (seqs ! 0 ! 3) = get_blank_spaces (seqs ! 2 ! 3) \<and>
     {player_1 (seqs ! 0 ! 3), player_2 (seqs ! 0 ! 3)} \<noteq>
     {player_1 (seqs ! 2 ! 3), player_2 (seqs ! 2 ! 3)} \<and>
     {active_player (seqs ! 0 ! 3), inactive_player (seqs ! 0 ! 3)} \<noteq>
     {active_player (seqs ! 2 ! 3), inactive_player (seqs ! 2 ! 3)}"
proof -
  obtain seqs wd' where
    run: "prepare_same_fair_matches example_world example_anchor example_test_agents 5 = Inr (seqs, wd')"
    and len: "length seqs = length example_test_agents"
    and games: "\<forall>i < 2 * 5. \<forall>a < length example_test_agents. \<forall>b < length example_test_agents.
              occupied (seqs ! a ! i) = occupied (seqs ! b ! i) \<and>
              get_blank_spaces (seqs ! a ! i) = get_blank_spaces (seqs ! b ! i) \<and>
              (a \<noteq> b \<longrightarrow>
                 {player_1 (seqs ! a ! i), player_2 (seqs ! a ! i)} \<noteq>
                 {player_1 (seqs ! b ! i), player_2 (seqs ! b ! i)} \<and>
                 {active_player (seqs ! a ! i), inactive_player (seqs ! a ! i)} \<noteq>
                 {active_player (seqs ! b ! i), inactive_player (seqs ! b ! i)})"
    using prepare_same_fair_matches_shared_openings
            [OF example_test_agents_simps(2), of example_world example_anchor 5]
    by blast
  have "(3::nat) < 2 * 5" "(0::nat) < length example_test_agents" "(2::nat) < length example_test_agents"
       "(0::nat) \<noteq> 2"
    by (simp_all add: example_test_agents_simps(1))
  with games have
    "occupied (seqs ! 0 ! 3) = occupied (seqs ! 2 ! 3) \<and>
     get_blank_spaces (seqs ! 0 ! 3) = get_blank_spaces (seqs ! 2 ! 3) \<and>
     {player_1 (seqs ! 0 ! 3), player_2 (seqs ! 0 ! 3)} \<noteq>
     {player_1 (seqs ! 2 ! 3), player_2 (seqs ! 2 ! 3)} \<and>
     {active_player (seqs ! 0 ! 3), inactive_player (seqs ! 0 ! 3)} \<noteq>
     {active_player (seqs ! 2 ! 3), inactive_player (seqs ! 2 ! 3)}"
    by blast
  with run len show ?thesis by (simp add: example_test_agents_simps(1))
qed

theorem openings_sampled_once_witness:
  "\<exists>openings seqs wd'.
     same_opening_moves 5 example_world = Inr (openings, wd') \<and>
     draws wd' = 10 \<and>
     length openings = 5 \<and>
     prepare_same_fair_matches example_world example_anchor example_test_agents 5 = Inr (seqs, wd') \<and>
     length seqs = 4 \<and>
     games_for wd' example_anchor (example_test_agents ! 3) openings 5 = Inr (seqs ! 3, wd') \<and>
     card (set openings) \<le> 5 \<and>
     card (occupied ` (\<Union>s \<in> set seqs. set s)) \<le> 5"
proof -
  obtain openings seqs wd' where
    "same_opening_moves 5 example_world = Inr (openings, wd')"
    "draws wd' = draws example_world + 2 * 5"
    "length openings = 5"
    "prepare_same_fair_matches example_world example_anchor example_test_agents 5 = Inr (seqs, wd')"
    "length seqs = length example_test_agents"
    "\<forall>k < length example_test_agents.
        games_for wd' example_anchor (example_test_agents ! k) openings 5 = Inr (seqs ! k, wd')"
    "card (set openings) \<le> 5"
    "card (occupied ` (\<Union>s \<in> set seqs. set s)) \<le> 5"
    using openings_sampled_once [of 5 example_world example_anchor example_test_agents]
    by blast
  then show ?thesis
    by (intro exI [of _ openings] exI [of _ seqs] exI [of _ wd'])
       (simp add: example_test_agents_simps(1) example_world_def)
qed

theorem sequence_alternates_fair_matches_witness:
  "\<exists>openings seqs wd'.
     same_opening_moves 5 example_world = Inr (openings, wd') \<and>
     prepare_same_fair_matches example_world example_anchor example_test_agents 5 = Inr (seqs, wd') \<and>
     prepare_fair_match wd' 0 3 (Some (openings ! 4)) 7 7 =
       Inr (([seqs ! 2 ! 8, seqs ! 2 ! 9], openings ! 4), wd') \<and>
     player_1 (seqs ! 2 ! 8) = 0 \<and> active_player (seqs ! 2 ! 8) = 0 \<and>
     player_1 (seqs ! 2 ! 9) = 3 \<and> active_player (seqs ! 2 ! 9) = 3"
proof -
  obtain openings seqs wd' where
    run: "same_opening_moves 5 example_world = Inr (openings, wd')"
      "prepare_same_fair_matches example_world example_anchor example_test_agents 5 = Inr (seqs, wd')"
    and pairs: "\<forall>k < length example_test_agents. \<forall>j < 5.
        prepare_fair_match wd' (player example_anchor) (player (example_test_agents ! k))
            (Some (openings ! j)) 7 7 =
          Inr (([seqs ! k ! (2 * j), seqs ! k ! (2 * j + 1)], openings ! j), wd') \<and>
        player_1 (seqs ! k ! (2 * j)) = player example_anchor \<and>
        player_2 (seqs ! k ! (2 * j)) = player (example_test_agents ! k) \<and>
        active_player (seqs ! k ! (2 * j)) = player example_anchor \<and>
        player_1 (seqs ! k ! (2 * j + 1)) = player (example_test_agents ! k) \<and>
        player_2 (seqs ! k ! (2 * j + 1)) = player example_anchor \<and>
        active_player (seqs ! k ! (2 * j + 1)) = player (example_test_agents ! k)"
    using sequence_alternates_fair_matches [of 5 example_world example_anchor example_test_agents]
    by blast
  have k: "(2::nat) < length example_test_agents" and j: "(4::nat) < 5"
    by (simp_all add: example_test_agents_simps(1))
  have p: "player example_anchor = 0" "player (example_test_agents ! 2) = 3"
    by (simp_all add: example_anchor_def example_test_agents_def Agent_def)
  from pairs k j have
    "prepare_fair_match wd' (player example_anchor) (player (example_test_agents ! 2))
            (Some (openings ! 4)) 7 7 =
          Inr (([seqs ! 2 ! (2 * 4), seqs ! 2 ! (2 * 4 + 1)], openings ! 4), wd') \<and>
        player_1 (seqs ! 2 ! (2 * 4)) = player example_anchor \<and>
        player_2 (seqs ! 2 ! (2 * 4)) = player (example_test_agents ! 2) \<and>
        active_player (seqs ! 2 ! (2 * 4)) = player example_anchor \<and>
        player_1 (seqs ! 2 ! (2 * 4 + 1)) = player (example_test_agents ! 2) \<and>
        player_2 (seqs ! 2 ! (2 * 4 + 1)) = player example_anchor \<and>
        active_player (seqs ! 2 ! (2 * 4 + 1)) = player (example_test_agents ! 2)"
    by blast
  then have
    "prepare_fair_match wd' 0 3 (Some (openings ! 4)) 7 7 =
       Inr (([seqs ! 2 ! 8, seqs ! 2 ! 9], openings ! 4), wd') \<and>
     player_1 (seqs ! 2 ! 8) = 0 \<and> active_player (seqs ! 2 ! 8) = 0 \<and>
     player_1 (seqs ! 2 ! 9) = 3 \<and> active_player (seqs ! 2 ! 9) = 3"
    by (simp add: p)
  with run show ?thesis by blast
qed

section \<open>Properties of counters\<close>

lemma counter_get_set [simp]:
  "counter_get (counter_set c k v) k' = (if k' = k then v else counter_get c k')"
  by (induction c) auto

lemma counter_keys_set [simp]: "counter_keys (counter_set c k v) = insert k (counter_keys c)"
proof (induction c)
  case Nil
  then show ?case by (simp add: counter_keys_def)
next
  case (Cons kv c)
  obtain k' v' where kv: "kv = (k', v')" by (cases kv)
  from Cons have "fst ` set (counter_set c k v) = insert k (fst ` set c)"
    by (simp add: counter_keys_def)
  then show ?case by (simp add: counter_keys_def kv insert_commute)
qed

lemma distinct_counter_set:
  "distinct (map fst c) \<Longrightarrow> distinct (map fst (counter_set c k v))"
proof (induction c)
  case Nil
  then show ?case by simp
next
  case (Cons kv c)
  have "fst ` set (counter_set c k v) = insert k (fst ` set c)"
    using counter_keys_set [of c k v] by (simp add: counter_keys_def)
  with Cons show ?case by (cases kv) auto
qed

lemma counter_sum_set: "counter_sum (counter_set c k v) + counter_get c k = counter_sum c + v"
  by (induction c) (auto simp: counter_sum_def)

lemma positive_counter_set: "positive c \<Longrightarrow> 0 < v \<Longrightarrow> positive (counter_set c k v)"
  by (induction c) (auto simp: positive_def)

lemma counter_get_zero: "k \<notin> counter_keys c \<Longrightarrow> counter_get c k = 0"
  by (induction c) (auto simp: counter_keys_def)

lemma counter_get_positive: "positive c \<Longrightarrow> k \<in> counter_keys c \<Longrightarrow> 0 < counter_get c k"
  unfolding counter_keys_def positive_def by (induction c) (simp_all split: prod.splits, force)

lemma counter_get_incr [simp]:
  "counter_get (counter_incr c k) k' = counter_get c k' + (if k' = k then 1 else 0)"
  by (simp add: counter_incr_def)

lemma counter_keys_incr [simp]: "counter_keys (counter_incr c k) = insert k (counter_keys c)"
  by (simp add: counter_incr_def)

lemma counter_sum_incr [simp]: "counter_sum (counter_incr c k) = counter_sum c + 1"
  using counter_sum_set [of c k "counter_get c k + 1"] by (simp add: counter_incr_def)

lemma distinct_counter_incr:
  "distinct (map fst c) \<Longrightarrow> distinct (map fst (counter_incr c k))"
  by (simp add: counter_incr_def distinct_counter_set)

lemma positive_counter_incr: "positive c \<Longrightarrow> positive (counter_incr c k)"
  by (simp add: counter_incr_def positive_counter_set)

lemma counter_get_del [simp]:
  "counter_get (counter_del c k) k' = (if k' = k then 0 else counter_get c k')"
  by (induction c) (auto simp: counter_del_def)

lemma counter_keys_del [simp]: "counter_keys (counter_del c k) = counter_keys c - {k}"
  by (auto simp: counter_del_def counter_keys_def)

lemma distinct_counter_del: "distinct (map fst c) \<Longrightarrow> distinct (map fst (counter_del c k))"
  by (simp add: counter_del_def distinct_map_filter)

lemma positive_counter_del: "positive c \<Longrightarrow> positive (counter_del c k)"
  by (simp add: counter_del_def positive_def list_all_iff)

lemma counter_update_Nil [simp]: "counter_update c [] = c"
  by (simp add: counter_update_def)

lemma counter_update_Cons [simp]:
  "counter_update c ((k, v) # d) = counter_update (counter_set c k (v + counter_get c k)) d"
  by (simp add: counter_update_def)

lemma counter_get_update:
  "distinct (map fst d) \<Longrightarrow>
   counter_get (counter_update c d) k = counter_get c k + counter_get d k"
proof (induction d arbitrary: c)
  case Nil
  then show ?case by simp
next
  case (Cons kv d)
  obtain k' v where kv: "kv = (k', v)" by (cases kv)
  from Cons.prems kv have "k' \<notin> counter_keys d" by (simp add: counter_keys_def)
  then have "counter_get d k' = 0" by (rule counter_get_zero)
  with Cons show ?case by (auto simp: kv)
qed

lemma counter_keys_update: "counter_keys (counter_update c d) = counter_keys c \<union> counter_keys d"
proof (induction d arbitrary: c)
  case Nil
  then show ?case by (simp add: counter_keys_def)
next
  case (Cons kv d)
  obtain k' v where kv: "kv = (k', v)" by (cases kv)
  have "counter_keys (kv # d) = insert k' (counter_keys d)" by (simp add: counter_keys_def kv)
  with Cons show ?case by (simp add: kv)
qed

lemma distinct_counter_update:
  "distinct (map fst c) \<Longrightarrow> distinct (map fst (counter_update c d))"
proof (induction d arbitrary: c)
  case Nil
  then show ?case by simp
next
  case (Cons kv d)
  then show ?case by (cases kv) (simp add: distinct_counter_set)
qed

lemma positive_counter_update:
  "positive c \<Longrightarrow> positive d \<Longrightarrow> positive (counter_update c d)"
proof (induction d arbitrary: c)
  case Nil
  then show ?case by simp
next
  case (Cons kv d)
  obtain k' v where kv: "kv = (k', v)" by (cases kv)
  from Cons.prems kv have "0 < v" "positive d" by (simp_all add: positive_def)
  with Cons.prems(1) Cons.IH show ?case by (simp add: kv positive_counter_set)
qed

lemma length_counter: "distinct (map fst c) \<Longrightarrow> length c = card (counter_keys c)"
  using distinct_card [of "map fst c"] by (simp add: counter_keys_def)


section \<open>Playing the games of a round\<close>

lemma play_games_append:
  "play_games play wd (gs1 @ gs2) wc lrc =
     (case play_games play wd gs1 wc lrc of
        Inl e \<Rightarrow> Inl e
      | Inr ((wc1, lrc1), wd1) \<Rightarrow> play_games play wd1 gs2 wc1 lrc1)"
  by (induction gs1 arbitrary: wd wc lrc) (auto split: sum.splits prod.splits)

lemma play_games_returns:
  "play_returns play \<Longrightarrow> \<exists>wc' lrc' wd'. play_games play wd gs wc lrc = Inr ((wc', lrc'), wd')"
proof (induction gs arbitrary: wd wc lrc)
  case Nil
  then show ?case by simp
next
  case (Cons g gs)
  from Cons.prems obtain r wd1 where "play wd g = Inr (r, wd1)"
    unfolding play_returns_def by blast
  moreover obtain winner loser reason where "r = (winner, loser, reason)" by (cases r)
  ultimately show ?case using Cons.IH [OF Cons.prems] by simp
qed

lemma play_games_sum:
  "play_games play wd gs wc lrc = Inr ((wc', lrc'), wd') \<Longrightarrow>
   counter_sum wc' = counter_sum wc + length gs \<and> counter_sum lrc' = counter_sum lrc + length gs"
proof (induction gs arbitrary: wd wc lrc)
  case Nil
  then show ?case by simp
next
  case (Cons g gs)
  from Cons.prems obtain winner loser reason wd1 where
    p: "play wd g = Inr ((winner, loser, reason), wd1)"
    by (auto split: sum.splits)
  with Cons.prems have
    "play_games play wd1 gs (counter_incr wc winner) (counter_incr lrc reason) = Inr ((wc', lrc'), wd')"
    by simp
  from Cons.IH [OF this] show ?case by simp
qed

lemma play_games_distinct:
  "play_games play wd gs wc lrc = Inr ((wc', lrc'), wd') \<Longrightarrow>
   distinct (map fst wc) \<Longrightarrow> positive wc \<Longrightarrow> distinct (map fst wc') \<and> positive wc'"
proof (induction gs arbitrary: wd wc lrc)
  case Nil
  then show ?case by simp
next
  case (Cons g gs)
  from Cons.prems(1) obtain winner loser reason wd1 where
    p: "play wd g = Inr ((winner, loser, reason), wd1)"
    by (auto split: sum.splits)
  with Cons.prems(1) have
    "play_games play wd1 gs (counter_incr wc winner) (counter_incr lrc reason) = Inr ((wc', lrc'), wd')"
    by simp
  from Cons.IH [OF this] Cons.prems(2,3) show ?case
    by (simp add: distinct_counter_incr positive_counter_incr)
qed

lemma play_games_wins:
  assumes "winner_registered play"
  shows "play_games play wd gs wc lrc = Inr ((wc', lrc'), wd') \<Longrightarrow>
     counter_keys wc' \<subseteq> counter_keys wc \<union> (\<Union>g \<in> set gs. registered g) \<and>
     (\<forall>p. counter_get wc' p \<le> counter_get wc p + length (filter (\<lambda>g. p \<in> registered g) gs))"
proof (induction gs arbitrary: wd wc lrc)
  case Nil
  then show ?case by simp
next
  case (Cons g gs)
  from Cons.prems obtain winner loser reason wd1 where
    p: "play wd g = Inr ((winner, loser, reason), wd1)"
    by (auto split: sum.splits)
  with assms have w: "winner \<in> registered g"
    unfolding winner_registered_def by blast
  from p Cons.prems have
    "play_games play wd1 gs (counter_incr wc winner) (counter_incr lrc reason) = Inr ((wc', lrc'), wd')"
    by simp
  from Cons.IH [OF this] have
    keys: "counter_keys wc' \<subseteq> insert winner (counter_keys wc) \<union> (\<Union>g \<in> set gs. registered g)"
    and gets: "\<And>p. counter_get wc' p \<le>
            counter_get wc p + (if p = winner then 1 else 0) + length (filter (\<lambda>g. p \<in> registered g) gs)"
    by simp_all
  have "counter_keys wc' \<subseteq> counter_keys wc \<union> (\<Union>g \<in> set (g # gs). registered g)"
    using keys w by auto
  moreover have "counter_get wc' p \<le>
        counter_get wc p + length (filter (\<lambda>g. p \<in> registered g) (g # gs))" for p
    using gets [of p] w by (cases "p = winner") auto
  ultimately show ?case by blast
qed

section \<open>A round\<close>

lemma play_sequences_games:
  "list_all opening_pair openings \<Longrightarrow> length openings = n \<Longrightarrow>
   play_sequences play wd agent opponents openings n wc lrc =
     play_games play wd (round_games agent openings opponents) wc lrc"
proof (induction opponents arbitrary: wd wc lrc)
  case Nil
  then show ?case by (simp add: round_games_def)
next
  case (Cons opponent opponents)
  have "round_games agent openings (opponent # opponents) =
          sequence_for agent openings opponent @ round_games agent openings opponents"
    by (simp add: round_games_def)
  then show ?case
    using Cons by (simp add: games_for_ok play_games_append split: sum.splits prod.splits)
qed

lemma length_round_games:
  "length (round_games agent openings opponents) = 2 * length openings * length opponents"
  by (induction opponents) (simp_all add: round_games_def length_sequence_for algebra_simps)

lemma play_fair_round_games:
  "\<exists>openings.
     same_opening_moves n wd = Inr (openings, wd\<lparr>draws := draws wd + 2 * n\<rparr>) \<and>
     length openings = n \<and> list_all opening_pair openings \<and>
     play_fair_round play wd cpu_agent test_agents n =
       play_games play (wd\<lparr>draws := draws wd + 2 * n\<rparr>)
         (round_games cpu_agent openings test_agents) [] []"
proof -
  obtain openings where o: "same_opening_moves n wd = Inr (openings, wd\<lparr>draws := draws wd + 2 * n\<rparr>)"
      "length openings = n" "list_all opening_pair openings"
    using same_opening_moves_ok by blast
  let ?run = "play_games play (wd\<lparr>draws := draws wd + 2 * n\<rparr>)
                (round_games cpu_agent openings test_agents) [] []"
  have "play_fair_round play wd cpu_agent test_agents n = ?run"
  proof (cases ?run)
    case (Inl e)
    then show ?thesis
      by (simp add: play_fair_round_def o play_sequences_games)
  next
    case (Inr r)
    obtain wc lrc wd' where r: "r = ((wc, lrc), wd')" by (cases r) auto
    from play_games_sum [OF Inr [unfolded r]] have "counter_sum wc = 2 * n * length test_agents"
      by (simp add: counter_sum_def length_round_games o(2))
    with Inr r show ?thesis
      by (simp add: play_fair_round_def o play_sequences_games)
  qed
  with o show ?thesis by blast
qed

text \<open>
  C4. When the play collaborator returns a result for every game, \<open>play_fair_round\<close>
  with \<open>k\<close> test agents and \<open>n\<close> matches returns, its own assertion holds, and the
  values of the win counts it returns add up to \<open>2 * n * k\<close>, the number of games of
  the round; so do the loss-reason counts. Who the winners are does not matter for the
  sum.
\<close>

theorem play_fair_round_conserves_count:
  assumes "play_returns play"
  shows "\<exists>win_counts loss_reason_counts wd'.
           play_fair_round play wd cpu_agent test_agents n =
             Inr ((win_counts, loss_reason_counts), wd') \<and>
           counter_sum win_counts = 2 * n * length test_agents \<and>
           counter_sum loss_reason_counts = 2 * n * length test_agents"
proof -
  obtain openings where o: "length openings = n"
      "play_fair_round play wd cpu_agent test_agents n =
         play_games play (wd\<lparr>draws := draws wd + 2 * n\<rparr>)
           (round_games cpu_agent openings test_agents) [] []"
    using play_fair_round_games by blast
  obtain wc lrc wd' where run:
      "play_games play (wd\<lparr>draws := draws wd + 2 * n\<rparr>)
         (round_games cpu_agent openings test_agents) [] [] = Inr ((wc, lrc), wd')"
    using play_games_returns [OF assms] by blast
  from play_games_sum [OF run] have
    "counter_sum wc = 2 * n * length test_agents" "counter_sum lrc = 2 * n * length test_agents"
    by (simp_all add: counter_sum_def length_round_games o(1))
  with o(2) run show ?thesis by simp
qed


lemma registered_sequence_for:
  "g \<in> set (sequence_for agent openings opponent) \<Longrightarrow> registered g = {player agent, player opponent}"
  by (auto simp: set_sequence_for registered_def)

lemma filter_registered_sequence_for:
  "length (filter (\<lambda>g. p \<in> registered g) (sequence_for agent openings opponent)) =
     (if p = player agent \<or> p = player opponent then 2 * length openings else 0)"
proof (cases "p = player agent \<or> p = player opponent")
  case True
  then have "\<forall>g \<in> set (sequence_for agent openings opponent). p \<in> registered g"
    by (auto simp: registered_sequence_for)
  then have "filter (\<lambda>g. p \<in> registered g) (sequence_for agent openings opponent) =
               sequence_for agent openings opponent"
    by (simp add: filter_id_conv)
  with True show ?thesis by (simp add: length_sequence_for)
next
  case False
  then have "\<forall>g \<in> set (sequence_for agent openings opponent). p \<notin> registered g"
    by (auto simp: registered_sequence_for)
  then have "filter (\<lambda>g. p \<in> registered g) (sequence_for agent openings opponent) = []"
    by (simp add: filter_empty_conv)
  with False show ?thesis by simp
qed

lemma filter_registered_round_games:
  "p \<noteq> player agent \<Longrightarrow>
   length (filter (\<lambda>g. p \<in> registered g) (round_games agent openings opponents)) =
     2 * length openings * count_list (map player opponents) p"
proof (induction opponents)
  case Nil
  then show ?case by (simp add: round_games_def)
next
  case (Cons opponent opponents)
  have "round_games agent openings (opponent # opponents) =
          sequence_for agent openings opponent @ round_games agent openings opponents"
    by (simp add: round_games_def)
  with Cons show ?case
    by (auto simp: filter_registered_sequence_for)
qed

lemma registered_round_games:
  "(\<Union>g \<in> set (round_games agent openings opponents). registered g) \<subseteq>
     insert (player agent) (player ` set opponents)"
  by (auto simp: round_games_def registered_sequence_for)

lemma positive_Nil [simp]: "positive []"
  by (simp add: positive_def)

lemma counter_keys_Nil [simp]: "counter_keys [] = {}"
  by (simp add: counter_keys_def)

lemma play_fair_round_counter:
  assumes "play_fair_round play wd cpu_agent test_agents n = Inr ((wc, lrc), wd')"
  shows "distinct (map fst wc)" and "positive wc"
proof -
  obtain openings where o:
      "play_fair_round play wd cpu_agent test_agents n =
         play_games play (wd\<lparr>draws := draws wd + 2 * n\<rparr>)
           (round_games cpu_agent openings test_agents) [] []"
    using play_fair_round_games by blast
  with assms have "play_games play (wd\<lparr>draws := draws wd + 2 * n\<rparr>)
           (round_games cpu_agent openings test_agents) [] [] = Inr ((wc, lrc), wd')"
    by simp
  from play_games_distinct [OF this] show "distinct (map fst wc)" and "positive wc"
    by simp_all
qed

lemma play_fair_round_wins:
  assumes "winner_registered play"
    and "play_fair_round play wd cpu_agent test_agents n = Inr ((wc, lrc), wd')"
  shows "counter_keys wc \<subseteq> insert (player cpu_agent) (player ` set test_agents)"
    and "p \<noteq> player cpu_agent \<Longrightarrow>
           counter_get wc p \<le> 2 * n * count_list (map player test_agents) p"
proof -
  obtain openings where o: "length openings = n"
      "play_fair_round play wd cpu_agent test_agents n =
         play_games play (wd\<lparr>draws := draws wd + 2 * n\<rparr>)
           (round_games cpu_agent openings test_agents) [] []"
    using play_fair_round_games by blast
  with assms(2) have run: "play_games play (wd\<lparr>draws := draws wd + 2 * n\<rparr>)
           (round_games cpu_agent openings test_agents) [] [] = Inr ((wc, lrc), wd')"
    by simp
  note w = play_games_wins [OF assms(1) run]
  from w have "counter_keys wc \<subseteq> (\<Union>g \<in> set (round_games cpu_agent openings test_agents). registered g)"
    by simp
  with registered_round_games [of cpu_agent openings test_agents]
  show "counter_keys wc \<subseteq> insert (player cpu_agent) (player ` set test_agents)"
    by blast
  show "counter_get wc p \<le> 2 * n * count_list (map player test_agents) p"
    if "p \<noteq> player cpu_agent"
  proof -
    from w have "counter_get wc p \<le>
        length (filter (\<lambda>g. p \<in> registered g) (round_games cpu_agent openings test_agents))"
      by simp
    with filter_registered_round_games [OF that, of openings test_agents] o(1)
    show ?thesis by simp
  qed
qed


section \<open>The rounds of a tournament\<close>

lemma run_rounds_round:
  "play_fair_round play wd cpu tests n = Inr ((wc, lrc), wd1) \<Longrightarrow>
   run_rounds play tests n idx (cpu # cpus) aw al out wd =
     run_rounds play tests n (idx + 1) cpus
       (counter_update aw (counter_del wc (player cpu))) (counter_update al lrc)
       (out @ [RowLabel (idx + 1) (name cpu), RowResults (format_row_results tests wc (2 * n))])
       wd1"
  by (simp add: Let_def)

lemma run_rounds_failed:
  "play_fair_round play wd cpu tests n = Inl e \<Longrightarrow>
   run_rounds play tests n idx (cpu # cpus) aw al out wd =
     (out @ [RowLabel (idx + 1) (name cpu)], Inl e)"
  by (simp add: Let_def)

lemma run_rounds_ConsE:
  assumes "run_rounds play tests n idx (cpu # cpus) aw al out wd = (out', Inr r)"
  obtains wc lrc wd1 where "play_fair_round play wd cpu tests n = Inr ((wc, lrc), wd1)"
    and "run_rounds play tests n (idx + 1) cpus
           (counter_update aw (counter_del wc (player cpu))) (counter_update al lrc)
           (out @ [RowLabel (idx + 1) (name cpu), RowResults (format_row_results tests wc (2 * n))])
           wd1 = (out', Inr r)"
proof (cases "play_fair_round play wd cpu tests n")
  case (Inl e)
  with assms show ?thesis by (simp add: run_rounds_failed)
next
  case (Inr x)
  obtain wc lrc wd1 where x: "x = ((wc, lrc), wd1)" by (cases x) auto
  from Inr x assms that show ?thesis by (simp add: run_rounds_round)
qed



lemma run_rounds_sums:
  "run_rounds play tests n idx cpus aw al out wd = (out', Inr ((aw', al'), wd')) \<Longrightarrow>
   distinct (map fst aw) \<Longrightarrow>
   \<exists>wcs. round_counts play wd cpus tests n = Inr wcs \<and> length wcs = length cpus \<and>
     distinct (map fst aw') \<and>
     (\<forall>p. counter_get aw' p =
        counter_get aw p +
        (\<Sum>(cpu, wc) \<leftarrow> zip cpus wcs. if p = player cpu then 0 else counter_get wc p))"
proof (induction cpus arbitrary: idx aw al out wd)
  case Nil
  then show ?case by simp
next
  case (Cons cpu cpus)
  from Cons.prems(1) obtain wc lrc wd1 where
    round: "play_fair_round play wd cpu tests n = Inr ((wc, lrc), wd1)"
    and rest: "run_rounds play tests n (idx + 1) cpus
           (counter_update aw (counter_del wc (player cpu))) (counter_update al lrc)
           (out @ [RowLabel (idx + 1) (name cpu), RowResults (format_row_results tests wc (2 * n))])
           wd1 = (out', Inr ((aw', al'), wd'))"
    by (rule run_rounds_ConsE)
  let ?aw1 = "counter_update aw (counter_del wc (player cpu))"
  have dwc: "distinct (map fst (counter_del wc (player cpu)))"
    using play_fair_round_counter(1) [OF round] by (rule distinct_counter_del)
  have d1: "distinct (map fst ?aw1)"
    using Cons.prems(2) by (rule distinct_counter_update)
  from Cons.IH [OF rest d1] obtain wcs where
    wcs: "round_counts play wd1 cpus tests n = Inr wcs" "length wcs = length cpus"
      "distinct (map fst aw')"
    and get: "\<And>p. counter_get aw' p =
        counter_get ?aw1 p +
        (\<Sum>(cpu, wc) \<leftarrow> zip cpus wcs. if p = player cpu then 0 else counter_get wc p)"
    by blast
  have step: "counter_get ?aw1 p =
                counter_get aw p + (if p = player cpu then 0 else counter_get wc p)" for p
    by (simp add: counter_get_update [OF dwc])
  have "round_counts play wd (cpu # cpus) tests n = Inr (wc # wcs)"
    by (simp add: round wcs(1))
  moreover have "length (wc # wcs) = length (cpu # cpus)" by (simp add: wcs(2))
  moreover have "counter_get aw' p =
        counter_get aw p +
        (\<Sum>(cpu, wc) \<leftarrow> zip (cpu # cpus) (wc # wcs). if p = player cpu then 0 else counter_get wc p)"
    for p
    by (simp add: get step)
  ultimately show ?case using wcs(3) by blast
qed

lemma run_rounds_bound:
  assumes "winner_registered play"
  shows "run_rounds play tests n idx cpus aw al out wd = (out', Inr ((aw', al'), wd')) \<Longrightarrow>
   distinct (map fst aw) \<Longrightarrow> positive aw \<Longrightarrow> counter_keys aw \<subseteq> player ` set tests \<Longrightarrow>
   (\<forall>p. counter_get aw p \<le> 2 * n * r * count_list (map player tests) p) \<Longrightarrow>
   distinct (map fst aw') \<and> positive aw' \<and> counter_keys aw' \<subseteq> player ` set tests \<and>
   (\<forall>p. counter_get aw' p \<le> 2 * n * (r + length cpus) * count_list (map player tests) p)"
proof (induction cpus arbitrary: idx aw al out wd r)
  case Nil
  then show ?case by simp
next
  case (Cons cpu cpus)
  from Cons.prems(1) obtain wc lrc wd1 where
    round: "play_fair_round play wd cpu tests n = Inr ((wc, lrc), wd1)"
    and rest: "run_rounds play tests n (idx + 1) cpus
           (counter_update aw (counter_del wc (player cpu))) (counter_update al lrc)
           (out @ [RowLabel (idx + 1) (name cpu), RowResults (format_row_results tests wc (2 * n))])
           wd1 = (out', Inr ((aw', al'), wd'))"
    by (rule run_rounds_ConsE)
  let ?wc1 = "counter_del wc (player cpu)"
  let ?aw1 = "counter_update aw ?wc1"
  note c = play_fair_round_counter [OF round]
  note w = play_fair_round_wins [OF assms round]
  have dwc: "distinct (map fst ?wc1)" using c(1) by (rule distinct_counter_del)
  have d1: "distinct (map fst ?aw1)" using Cons.prems(2) by (rule distinct_counter_update)
  have p1: "positive ?aw1"
    using Cons.prems(3) c(2) by (intro positive_counter_update positive_counter_del)
  have k1: "counter_keys ?aw1 \<subseteq> player ` set tests"
    using Cons.prems(4) w(1) by (auto simp: counter_keys_update)
  have b1: "\<forall>p. counter_get ?aw1 p \<le> 2 * n * (r + 1) * count_list (map player tests) p"
  proof
    fix p
    have "counter_get ?wc1 p \<le> 2 * n * count_list (map player tests) p"
      using w(2) [of p] by simp
    moreover have "counter_get aw p \<le> 2 * n * r * count_list (map player tests) p"
      using Cons.prems(5) by blast
    ultimately show "counter_get ?aw1 p \<le> 2 * n * (r + 1) * count_list (map player tests) p"
      by (simp add: counter_get_update [OF dwc] algebra_simps)
  qed
  from Cons.IH [OF rest d1 p1 k1 b1] show ?case by simp
qed


section \<open>The end of the tournament\<close>

lemma format_win_rates_Inr:
  "format_win_rates tests aw games = Inr rates \<Longrightarrow>
   rates = map (\<lambda>agent. of_nat (counter_get aw (player agent)) / of_nat games) tests"
  by (induction tests arbitrary: rates) (auto simp: Let_def split: if_splits sum.splits)

lemma run_fair_tournament_InrE:
  assumes "run_fair_tournament play wd cpus tests n = (out, Inr ((aw, al), wd'))"
  obtains out1 where
    "run_rounds play tests n 0 cpus [] [] [Header (format_header tests)] wd =
       (out1, Inr ((aw, al), wd'))"
    "length aw = length tests"
    "out = out1 @ [DividingLine (make_dividing_line tests),
                   WinRates (map (\<lambda>agent. of_nat (counter_get aw (player agent)) /
                                          of_nat (2 * n * length cpus)) tests),
                   LossResults (format_loss_results al)]"
proof -
  obtain out1 r where rr:
    "run_rounds play tests n 0 cpus [] [] [Header (format_header tests)] wd = (out1, r)"
    by (cases "run_rounds play tests n 0 cpus [] [] [Header (format_header tests)] wd")
  show ?thesis
  proof (cases r)
    case (Inl e)
    with rr assms show ?thesis by (simp add: run_fair_tournament_def)
  next
    case (Inr x)
    obtain aw1 al1 wd1 where x: "x = ((aw1, al1), wd1)" by (cases x) auto
    from assms rr Inr x have len: "length aw1 = length tests"
      by (auto simp: run_fair_tournament_def Let_def split: if_splits sum.splits)
    from assms rr Inr x len obtain rates where
      rates: "format_win_rates tests aw1 (2 * n * length cpus) = Inr rates"
      and res: "aw = aw1" "al = al1" "wd' = wd1"
        "out = out1 @ [DividingLine (make_dividing_line tests), WinRates rates,
                       LossResults (format_loss_results al1)]"
      by (auto simp: run_fair_tournament_def Let_def split: if_splits sum.splits)
    from format_win_rates_Inr [OF rates] rr Inr x len res that show ?thesis by simp
  qed
qed

lemma count_list_distinct: "distinct xs \<Longrightarrow> count_list xs x \<le> 1"
  by (induction xs) (auto simp: count_list_0_iff)

lemma one_entry_each:
  assumes "distinct (map fst aw)" "counter_keys aw \<subseteq> player ` set tests"
    "length aw = length tests"
  shows "distinct (map player tests)" and "counter_keys aw = player ` set tests"
proof -
  have "length tests = card (counter_keys aw)"
    using length_counter [OF assms(1)] assms(3) by simp
  also have "\<dots> \<le> card (player ` set tests)"
    using assms(2) by (intro card_mono) simp_all
  finally have le: "length tests \<le> card (player ` set tests)" .
  have ge: "card (player ` set tests) \<le> length tests"
    using card_length [of "map player tests"] by simp
  from le ge have "card (set (map player tests)) = length (map player tests)" by simp
  then show "distinct (map player tests)" by (rule card_distinct)
  have "card (player ` set tests) \<le> card (counter_keys aw)"
    using ge length_counter [OF assms(1)] assms(3) by simp
  with assms(2) show "counter_keys aw = player ` set tests"
    by (intro card_seteq) simp_all
qed

lemma tournament_invariant:
  assumes "winner_registered play"
    and "run_rounds play tests n 0 cpus [] [] out0 wd = (out, Inr ((aw, al), wd'))"
  shows "distinct (map fst aw)" "positive aw" "counter_keys aw \<subseteq> player ` set tests"
    "counter_get aw p \<le> 2 * n * length cpus * count_list (map player tests) p"
  using run_rounds_bound [OF assms(1) assms(2), of 0] by simp_all


lemma rounds_wins_bounded:
  assumes "winner_registered play" "distinct (map player test_agents)"
    and "run_rounds play test_agents n 0 cpu_agents [] [] out0 wd = (out, Inr ((aw, al), wd'))"
  shows "counter_get aw p \<le> 2 * n * length cpu_agents"
proof -
  have "counter_get aw p \<le> 2 * n * length cpu_agents * count_list (map player test_agents) p"
    by (rule tournament_invariant(4) [OF assms(1,3)])
  also have "\<dots> \<le> 2 * n * length cpu_agents * 1"
    using count_list_distinct [OF assms(2), of p] by (intro mult_le_mono2)
  finally show ?thesis by simp
qed


text \<open>
  C9. Let the play collaborator name one of the two registered competitors of a game as
  its winner. If \<open>run_fair_tournament\<close> returns a result, the tournament-wide win
  counts have exactly one entry for each test agent, the player objects of the test agents
  are pairwise distinct and each has won at least one game. And if, after all rounds, some
  test agent has no win, the run ends after the dividing line with the assertion error
  and returns no statistics.
\<close>

theorem every_test_agent_must_win:
  assumes "winner_registered play"
  shows "(\<forall>out aw al wd'.
            run_fair_tournament play wd cpu_agents test_agents n = (out, Inr ((aw, al), wd')) \<longrightarrow>
            length aw = length test_agents \<and> distinct (map player test_agents) \<and>
            (\<forall>agent \<in> set test_agents. 1 \<le> counter_get aw (player agent))) \<and>
         (\<forall>out aw al wd'.
            run_rounds play test_agents n 0 cpu_agents [] []
                [Header (format_header test_agents)] wd = (out, Inr ((aw, al), wd')) \<and>
            (\<exists>agent \<in> set test_agents. counter_get aw (player agent) = 0) \<longrightarrow>
            run_fair_tournament play wd cpu_agents test_agents n =
              (out @ [DividingLine (make_dividing_line test_agents)], Inl AssertionError))"
proof (intro conjI allI impI)
  fix out aw al wd'
  assume run: "run_fair_tournament play wd cpu_agents test_agents n = (out, Inr ((aw, al), wd'))"
  then obtain out1 where
    rounds: "run_rounds play test_agents n 0 cpu_agents [] [] [Header (format_header test_agents)] wd =
       (out1, Inr ((aw, al), wd'))"
    and len: "length aw = length test_agents"
    by (rule run_fair_tournament_InrE)
  note inv = tournament_invariant [OF assms rounds]
  note one = one_entry_each [OF inv(1,3) len]
  show "length aw = length test_agents" by (rule len)
  show "distinct (map player test_agents)" by (rule one(1))
  show "\<forall>agent \<in> set test_agents. 1 \<le> counter_get aw (player agent)"
  proof
    fix agent
    assume "agent \<in> set test_agents"
    then have "player agent \<in> counter_keys aw" using one(2) by simp
    from counter_get_positive [OF inv(2) this] show "1 \<le> counter_get aw (player agent)" by simp
  qed
next
  fix out aw al wd'
  assume a: "run_rounds play test_agents n 0 cpu_agents [] []
                [Header (format_header test_agents)] wd = (out, Inr ((aw, al), wd')) \<and>
            (\<exists>agent \<in> set test_agents. counter_get aw (player agent) = 0)"
  then have rounds: "run_rounds play test_agents n 0 cpu_agents [] []
                [Header (format_header test_agents)] wd = (out, Inr ((aw, al), wd'))"
    by blast
  from a obtain agent where agent: "agent \<in> set test_agents" "counter_get aw (player agent) = 0"
    by blast
  note inv = tournament_invariant [OF assms rounds]
  have "length aw \<noteq> length test_agents"
  proof
    assume len: "length aw = length test_agents"
    from one_entry_each(2) [OF inv(1,3) len] agent(1)
    have "player agent \<in> counter_keys aw" by simp
    from counter_get_positive [OF inv(2) this] agent(2) show False by simp
  qed
  with rounds show "run_fair_tournament play wd cpu_agents test_agents n =
              (out @ [DividingLine (make_dividing_line test_agents)], Inl AssertionError)"
    by (simp add: run_fair_tournament_def Let_def)
qed

text \<open>
  C7, as amended. After any number of rounds, the tournament-wide count of every
  competitor is the sum of its win counts in the rounds in which it was not the reference
  agent: the entry of the reference agent of a round is removed from the counts of that
  round before they are merged, and nothing else is changed. When the play collaborator
  names one of the two registered competitors of a game as its winner, only test agents
  have entries, so a reference agent that is not also a test agent never has one. The
  states that \<open>run_fair_tournament\<close> reaches are the results of \<open>run_rounds\<close> for the
  prefixes of its list of reference agents.
\<close>

theorem anchor_removed_before_merge:
  assumes "run_rounds play test_agents n 0 cpu_agents [] [] out0 wd = (out, Inr ((aw, al), wd'))"
  shows "\<exists>wcs. round_counts play wd cpu_agents test_agents n = Inr wcs \<and>
           length wcs = length cpu_agents \<and>
           (\<forall>p. counter_get aw p =
              (\<Sum>(cpu_agent, win_counts) \<leftarrow> zip cpu_agents wcs.
                 if p = player cpu_agent then 0 else counter_get win_counts p)) \<and>
           (winner_registered play \<longrightarrow>
              counter_keys aw \<subseteq> player ` set test_agents \<and>
              (\<forall>cpu_agent \<in> set cpu_agents.
                 player cpu_agent \<notin> player ` set test_agents \<longrightarrow>
                 player cpu_agent \<notin> counter_keys aw))"
proof -
  from run_rounds_sums [OF assms] obtain wcs where
    wcs: "round_counts play wd cpu_agents test_agents n = Inr wcs" "length wcs = length cpu_agents"
    and get: "\<forall>p. counter_get aw p =
        counter_get [] p +
        (\<Sum>(cpu, wc) \<leftarrow> zip cpu_agents wcs. if p = player cpu then 0 else counter_get wc p)"
    by auto
  have keys: "counter_keys aw \<subseteq> player ` set test_agents" if "winner_registered play"
    using tournament_invariant(3) [OF that assms] .
  then have "winner_registered play \<longrightarrow>
              counter_keys aw \<subseteq> player ` set test_agents \<and>
              (\<forall>cpu_agent \<in> set cpu_agents.
                 player cpu_agent \<notin> player ` set test_agents \<longrightarrow>
                 player cpu_agent \<notin> counter_keys aw)"
    by blast
  with wcs get show ?thesis by auto
qed



lemma example_plays:
  "play_returns play_first" "winner_registered play_first" "winner_registered play_lowest"
  by (auto simp: play_returns_def winner_registered_def play_first_def play_lowest_def
        registered_def min_def)

lemma example_cpu_agents_simps:
  "length example_cpu_agents = 2" "player ` set example_cpu_agents = {0, 5}"
  by (simp_all add: example_cpu_agents_def Agent_def)

theorem play_fair_round_conserves_count_witness:
  "\<exists>win_counts loss_reason_counts wd'.
     play_fair_round play_first example_world example_anchor example_test_agents 5 =
       Inr ((win_counts, loss_reason_counts), wd') \<and>
     counter_sum win_counts = 40 \<and> counter_sum loss_reason_counts = 40"
  using play_fair_round_conserves_count
          [OF example_plays(1), of example_world example_anchor example_test_agents 5]
  by (simp add: example_test_agents_simps(1))

lemma example_tournament_returns:
  "\<exists>out aw al wd'.
     run_fair_tournament play_first example_world example_cpu_agents example_test_agents 1 =
       (out, Inr ((aw, al), wd'))"
proof -
  let ?run = "run_fair_tournament play_first example_world example_cpu_agents example_test_agents 1"
  have "\<not> isl (snd ?run)" by code_simp
  then obtain r where "snd ?run = Inr r" by (cases "snd ?run") auto
  then have "?run = (fst ?run, Inr ((fst (fst r), snd (fst r)), snd r))"
    by (simp add: prod_eq_iff)
  then show ?thesis by blast
qed



lemma example_rounds_no_wins:
  "\<exists>out al wd'.
     run_rounds play_lowest example_test_agents 1 0 [example_anchor] [] []
       [Header (format_header example_test_agents)] example_world = (out, Inr (([], al), wd'))"
proof -
  let ?run = "run_rounds play_lowest example_test_agents 1 0 [example_anchor] [] []
       [Header (format_header example_test_agents)] example_world"
  have "map_sum id (\<lambda>r. fst (fst r)) (snd ?run) = Inr []" by code_simp
  then obtain r where "snd ?run = Inr r" "fst (fst r) = []" by (cases "snd ?run") auto
  then have "?run = (fst ?run, Inr (([], snd (fst r)), snd r))"
    by (simp add: prod_eq_iff)
  then show ?thesis by blast
qed

theorem every_test_agent_must_win_witness:
  "(\<exists>out aw al wd'.
      run_fair_tournament play_first example_world example_cpu_agents example_test_agents 1 =
        (out, Inr ((aw, al), wd')) \<and>
      length aw = 4 \<and> distinct (map player example_test_agents) \<and> 1 \<le> counter_get aw 3) \<and>
   (\<exists>out.
      run_fair_tournament play_lowest example_world [example_anchor] example_test_agents 1 =
        (out, Inl AssertionError))"
proof -
  note thm1 = every_test_agent_must_win
                [OF example_plays(2), of example_world example_cpu_agents example_test_agents 1]
  note thm2 = every_test_agent_must_win
                [OF example_plays(3), of example_world "[example_anchor]" example_test_agents 1]
  obtain out aw al wd' where run:
    "run_fair_tournament play_first example_world example_cpu_agents example_test_agents 1 =
       (out, Inr ((aw, al), wd'))"
    using example_tournament_returns by blast
  have in3: "Agent 3 ''AB_Improved'' \<in> set example_test_agents"
    by (simp add: example_test_agents_def)
  from thm1 run have "length aw = length example_test_agents \<and>
      distinct (map player example_test_agents) \<and>
      (\<forall>agent \<in> set example_test_agents. 1 \<le> counter_get aw (player agent))"
    by blast
  with in3 have first: "length aw = 4 \<and> distinct (map player example_test_agents) \<and>
      1 \<le> counter_get aw 3"
    by (auto simp: example_test_agents_simps(1) Agent_def)
  obtain out2 al2 wd2 where rounds:
    "run_rounds play_lowest example_test_agents 1 0 [example_anchor] [] []
       [Header (format_header example_test_agents)] example_world = (out2, Inr (([], al2), wd2))"
    using example_rounds_no_wins by blast
  have "\<exists>agent \<in> set example_test_agents. counter_get [] (player agent) = 0"
    using in3 by auto
  with thm2 rounds have
    "run_fair_tournament play_lowest example_world [example_anchor] example_test_agents 1 =
       (out2 @ [DividingLine (make_dividing_line example_test_agents)], Inl AssertionError)"
    by blast
  with run first show ?thesis by blast
qed

text \<open>
  The counterexample to the statement for every reference agent: a player object that is
  the reference agent of the first round and a test agent as well. It wins a game of the
  second round, so the tournament-wide counts hold its key, and its count there, 1, is not
  the sum 2 + 1 of its counts in the two rounds.
\<close>

theorem anchor_key_in_totals:
  "case run_fair_tournament play_first example_world
          [Agent 1 ''AB_Improved'', Agent 0 ''Random''] [Agent 1 ''AB_Improved''] 1 of
     (out, Inl e) \<Rightarrow> False
   | (out, Inr ((aw, al), wd')) \<Rightarrow>
       1 \<in> counter_keys aw \<and> counter_get aw 1 = 1 \<and>
       map_sum id (map (\<lambda>win_counts. counter_get win_counts 1))
         (round_counts play_first example_world
            [Agent 1 ''AB_Improved'', Agent 0 ''Random''] [Agent 1 ''AB_Improved''] 1) =
       Inr [2, 1]"
  by code_simp

lemma example_rounds_return:
  "\<exists>out aw al wd'.
     run_rounds play_first example_test_agents 1 0 example_cpu_agents [] [] [] example_world =
       (out, Inr ((aw, al), wd'))"
proof -
  let ?run = "run_rounds play_first example_test_agents 1 0 example_cpu_agents [] [] [] example_world"
  have "\<not> isl (snd ?run)" by code_simp
  then obtain r where "snd ?run = Inr r" by (cases "snd ?run") auto
  then have "?run = (fst ?run, Inr ((fst (fst r), snd (fst r)), snd r))"
    by (simp add: prod_eq_iff)
  then show ?thesis by blast
qed

theorem anchor_removed_before_merge_witness:
  "\<exists>out aw al wd' wcs.
     run_rounds play_first example_test_agents 1 0 example_cpu_agents [] [] [] example_world =
       (out, Inr ((aw, al), wd')) \<and>
     round_counts play_first example_world example_cpu_agents example_test_agents 1 = Inr wcs \<and>
     length wcs = 2 \<and>
     counter_get aw 3 =
       (\<Sum>(cpu_agent, win_counts) \<leftarrow> zip example_cpu_agents wcs.
          if 3 = player cpu_agent then 0 else counter_get win_counts 3) \<and>
     counter_keys aw \<subseteq> {1, 2, 3, 4} \<and> 0 \<notin> counter_keys aw \<and> 5 \<notin> counter_keys aw"
proof -
  obtain out aw al wd' where run:
    "run_rounds play_first example_test_agents 1 0 example_cpu_agents [] [] [] example_world =
       (out, Inr ((aw, al), wd'))"
    using example_rounds_return by blast
  from anchor_removed_before_merge [OF run] obtain wcs where
    wcs: "round_counts play_first example_world example_cpu_agents example_test_agents 1 = Inr wcs"
      "length wcs = length example_cpu_agents"
    and get: "\<forall>p. counter_get aw p =
              (\<Sum>(cpu_agent, win_counts) \<leftarrow> zip example_cpu_agents wcs.
                 if p = player cpu_agent then 0 else counter_get win_counts p)"
    and keys: "winner_registered play_first \<longrightarrow>
              counter_keys aw \<subseteq> player ` set example_test_agents \<and>
              (\<forall>cpu_agent \<in> set example_cpu_agents.
                 player cpu_agent \<notin> player ` set example_test_agents \<longrightarrow>
                 player cpu_agent \<notin> counter_keys aw)"
    by blast
  have tests: "player ` set example_test_agents = {1, 2, 3, 4}"
    using example_test_agents_simps(3) by (metis list.set_map list.simps(15) empty_set)
  from keys example_plays(2) have k: "counter_keys aw \<subseteq> {1, 2, 3, 4}"
    by (simp add: tests)
  then have "0 \<notin> counter_keys aw" "5 \<notin> counter_keys aw" by auto
  with run wcs get k show ?thesis
    by (auto simp: example_cpu_agents_simps(1))
qed


text \<open>
  A failure in the sixth game of a tournament of two rounds of four games: the row of the
  first round has been printed, the summary has not.
\<close>

lemma play_failure_in_second_round:
  "map_prod id (map_sum id fst)
     (run_fair_tournament play_failing (example_world_counting 0) example_cpu_agents
        [Agent 1 ''AB_Improved'', Agent 2 ''AB_Improved''] 1) =
   ([Header [''AB_Improved'', ''AB_Improved''], RowLabel 1 ''Random'',
     RowResults [(1, 1), (1, 1)], RowLabel 2 ''MM_Open''],
    Inl (PlayFailure ''search error''))"
  by code_simp


end
